theory Spec2Isabelle
  imports Main
begin

section \<open>Strings and characters\<close>

text \<open>
  A source string is modelled as a \<^typ>\<open>string\<close>, one \<^typ>\<open>char\<close> per code unit
  (the code units 0 to 255).  Among these, the whitespace class of the regular
  expression engine (\<^verbatim>\<open>\s\<close>, also what \<^verbatim>\<open>trim\<close> removes) is tab, line feed,
  vertical tab, form feed, carriage return, space and the no-break space; the word class
  \<^verbatim>\<open>\w\<close> is the letters, the digits and the underscore.
\<close>

abbreviation NL :: char where
  "NL \<equiv> CHR 0x0A"

abbreviation DQUOTE :: char where
  "DQUOTE \<equiv> CHR 0x22"

abbreviation BACKSLASH :: char where
  "BACKSLASH \<equiv> CHR 0x5C"

definition is_space :: "char \<Rightarrow> bool" where
  "is_space c =
     (c = CHR 0x09 \<or> c = NL \<or> c = CHR 0x0B \<or> c = CHR 0x0C \<or> c = CHR 0x0D \<or> c = CHR '' '' \<or>
      c = CHR 0xA0)"

definition is_word :: "char \<Rightarrow> bool" where
  "is_word c =
     (c \<in> set ''abcdefghijklmnopqrstuvwxyzABCDEFGHIJKLMNOPQRSTUVWXYZ0123456789_'')"

definition trimStart :: "string \<Rightarrow> string" where
  "trimStart s = dropWhile is_space s"

definition trimEnd :: "string \<Rightarrow> string" where
  "trimEnd s = rev (dropWhile is_space (rev s))"

definition trim :: "string \<Rightarrow> string" where
  "trim s = trimStart (trimEnd s)"

text \<open>\<^verbatim>\<open>lines.join(sep)\<close>.\<close>

fun join :: "string \<Rightarrow> string list \<Rightarrow> string" where
  "join sep [] = []"
| "join sep [x] = x"
| "join sep (x # y # ys) = x @ sep @ join sep (y # ys)"

text \<open>\<^verbatim>\<open>s.split(c)\<close> for a one-character separator: the empty string gives one empty piece.\<close>

fun splitOn :: "char \<Rightarrow> string \<Rightarrow> string list" where
  "splitOn c [] = [[]]"
| "splitOn c (x # xs) =
     (if x = c then [] # splitOn c xs
      else (case splitOn c xs of [] \<Rightarrow> [[x]] | l # ls \<Rightarrow> (x # l) # ls))"

text \<open>\<^verbatim>\<open>s.includes(pat)\<close>.\<close>

fun includes_str :: "string \<Rightarrow> string \<Rightarrow> bool" where
  "includes_str [] pat = (pat = [])"
| "includes_str (c # cs) pat = (take (length pat) (c # cs) = pat \<or> includes_str cs pat)"

text \<open>\<^verbatim>\<open>s.startsWith(pat)\<close>.\<close>

definition startsWith :: "string \<Rightarrow> string \<Rightarrow> bool" where
  "startsWith s pat = (take (length pat) s = pat)"

text \<open>\<^verbatim>\<open>s.indexOf(c)\<close> and \<^verbatim>\<open>s.lastIndexOf(c)\<close> for one character; -1 when absent.\<close>

definition indexOf :: "string \<Rightarrow> char \<Rightarrow> int" where
  "indexOf s c = (if c \<in> set s then int (length (takeWhile (\<lambda>x. x \<noteq> c) s)) else - 1)"

definition lastIndexOf :: "string \<Rightarrow> char \<Rightarrow> int" where
  "lastIndexOf s c =
     (if c \<in> set s then int (length s) - 1 - int (length (takeWhile (\<lambda>x. x \<noteq> c) (rev s)))
      else - 1)"

text \<open>
  \<^verbatim>\<open>s.substring(a, b)\<close>: both indices are clamped to the string, and swapped when
  the first is the larger one.
\<close>

definition substring :: "string \<Rightarrow> int \<Rightarrow> int \<Rightarrow> string" where
  "substring s a b =
     (let n = int (length s);
          a' = max 0 (min a n);
          b' = max 0 (min b n);
          lo = min a' b';
          hi = max a' b'
      in take (nat (hi - lo)) (drop (nat lo) s))"

section \<open>The field normalizer\<close>

text \<open>
  \<^verbatim>\<open>s.replace(/,\s*$/, '')\<close>: the leftmost comma that only whitespace follows, up to
  the end of the string, is removed together with that whitespace.
\<close>

fun stripTrailingComma :: "string \<Rightarrow> string" where
  "stripTrailingComma [] = []"
| "stripTrailingComma (c # cs) =
     (if c = CHR '','' \<and> list_all is_space cs then [] else c # stripTrailingComma cs)"

text \<open>\<^verbatim>\<open>s.replace(/\s+/g, ' ')\<close>: every maximal run of whitespace becomes one space.\<close>

function collapseWhitespace :: "string \<Rightarrow> string" where
  "collapseWhitespace [] = []"
| "collapseWhitespace (c # cs) =
     (if is_space c then CHR '' '' # collapseWhitespace (dropWhile is_space cs)
      else c # collapseWhitespace cs)"
  by pat_completeness auto
termination
proof (relation "measure length")
  show "wf (measure length)" by simp
next
  fix c :: char and cs :: string
  have "length (dropWhile is_space cs) \<le> length cs"
    by (rule length_dropWhile_le)
  then show "(dropWhile is_space cs, c # cs) \<in> measure length" by simp
next
  fix c :: char and cs :: string
  show "(cs, c # cs) \<in> measure length" by simp
qed

definition normalizeFieldContent :: "string \<Rightarrow> string" where
  "normalizeFieldContent raw = collapseWhitespace (stripTrailingComma (trim raw))"

section \<open>The top-level splitter\<close>

record split_state =
  parts :: "string list"
  current :: string
  brace :: int
  paren :: int
  bracket :: int
  inString :: bool

text \<open>
  One iteration of the loop of \<^verbatim>\<open>splitTopLevelByComma\<close>; \<open>prev\<close> is the character
  before \<open>ch\<close>, absent at index 0.
\<close>

definition split_step :: "char option \<Rightarrow> char \<Rightarrow> split_state \<Rightarrow> split_state" where
  "split_step prev ch st =
     (let st1 = (if ch = DQUOTE \<and> prev \<noteq> Some BACKSLASH
                 then st\<lparr>inString := \<not> inString st\<rparr> else st)
      in if \<not> inString st1 then
           if ch = CHR ''{'' then st1\<lparr>brace := brace st1 + 1, current := current st1 @ [ch]\<rparr>
           else if ch = CHR ''}'' then st1\<lparr>brace := brace st1 - 1, current := current st1 @ [ch]\<rparr>
           else if ch = CHR ''('' then st1\<lparr>paren := paren st1 + 1, current := current st1 @ [ch]\<rparr>
           else if ch = CHR '')'' then st1\<lparr>paren := paren st1 - 1, current := current st1 @ [ch]\<rparr>
           else if ch = CHR ''['' then st1\<lparr>bracket := bracket st1 + 1, current := current st1 @ [ch]\<rparr>
           else if ch = CHR '']'' then st1\<lparr>bracket := bracket st1 - 1, current := current st1 @ [ch]\<rparr>
           else if ch = CHR '','' \<and> brace st1 = 0 \<and> paren st1 = 0 \<and> bracket st1 = 0
             then st1\<lparr>parts := parts st1 @ [normalizeFieldContent (current st1)], current := []\<rparr>
           else st1\<lparr>current := current st1 @ [ch]\<rparr>
         else st1\<lparr>current := current st1 @ [ch]\<rparr>)"

fun split_loop :: "char option \<Rightarrow> string \<Rightarrow> split_state \<Rightarrow> split_state" where
  "split_loop prev [] st = st"
| "split_loop prev (ch # rest) st = split_loop (Some ch) rest (split_step prev ch st)"

definition split_init :: split_state where
  "split_init = \<lparr>parts = [], current = [], brace = 0, paren = 0, bracket = 0, inString = False\<rparr>"

definition splitTopLevelByComma :: "string \<Rightarrow> string list" where
  "splitTopLevelByComma input =
     (let st = split_loop None input split_init
      in if 0 < length (trim (current st))
         then parts st @ [normalizeFieldContent (current st)]
         else parts st)"

section \<open>The bracket matcher\<close>

text \<open>
  The loop of \<^verbatim>\<open>findMatchingBrace\<close> over the characters from index \<open>i\<close> on;
  \<open>prev\<close> is the character at index \<open>i - 1\<close>, absent at index 0.  The result is
  the index of the closing brace, or -1.
\<close>

fun brace_loop :: "char option \<Rightarrow> nat \<Rightarrow> int \<Rightarrow> bool \<Rightarrow> string \<Rightarrow> int" where
  "brace_loop prev i braceCount inStr [] = - 1"
| "brace_loop prev i braceCount inStr (ch # rest) =
     (let inStr' = (if ch = DQUOTE \<and> prev \<noteq> Some BACKSLASH then \<not> inStr else inStr)
      in if \<not> inStr' then
           if ch = CHR ''{'' then brace_loop (Some ch) (i + 1) (braceCount + 1) inStr' rest
           else if ch = CHR ''}'' then
             (if braceCount - 1 = 0 then int i
              else brace_loop (Some ch) (i + 1) (braceCount - 1) inStr' rest)
           else brace_loop (Some ch) (i + 1) braceCount inStr' rest
         else brace_loop (Some ch) (i + 1) braceCount inStr' rest)"

definition charBefore :: "string \<Rightarrow> nat \<Rightarrow> char option" where
  "charBefore code i = (if 0 < i \<and> i - 1 < length code then Some (code ! (i - 1)) else None)"

definition findMatchingBrace :: "string \<Rightarrow> nat \<Rightarrow> int" where
  "findMatchingBrace code openBracePos =
     brace_loop (charBefore code openBracePos) openBracePos 0 False (drop openBracePos code)"

section \<open>Formatting one type definition\<close>

text \<open>The field lines of a definition: each segment normalized and indented by the fixed
  two spaces, with a comma after every segment but the last.\<close>

fun fieldLines :: "string list \<Rightarrow> string list" where
  "fieldLines [] = []"
| "fieldLines [f] = [''  '' @ normalizeFieldContent f]"
| "fieldLines (f # g # fs) = (''  '' @ normalizeFieldContent f @ '','') # fieldLines (g # fs)"

definition formatSingleTypeDefinition :: "string \<Rightarrow> string \<Rightarrow> string" where
  "formatSingleTypeDefinition original prefix =
     (let openBracePos = indexOf original CHR ''{'';
          closeBracePos = lastIndexOf original CHR ''}''
      in if openBracePos = - 1 \<or> closeBracePos = - 1 then original
         else
           let fieldContent = trim (substring original (openBracePos + 1) closeBracePos)
           in if fieldContent = [] then trimEnd prefix @ [NL] @ ''}''
              else
                let fieldSegments = splitTopLevelByComma fieldContent
                in if length fieldSegments \<le> 1
                   then trimEnd prefix @ [NL] @ ''  '' @ normalizeFieldContent fieldContent @
                        [NL] @ ''}''
                   else join [NL] ([trimEnd prefix] @ fieldLines fieldSegments @ [''}'']))"

section \<open>Locating the type definitions\<close>

text \<open>
  \<^verbatim>\<open>\w+\s*::=\<close> matched at the head of a string: the length of the match.  Each
  repetition is greedy, and giving back a character can never help the next item, so the
  match is the maximal word, the maximal whitespace and the operator.
\<close>

definition match_assign :: "string \<Rightarrow> nat option" where
  "match_assign s =
     (let w = length (takeWhile is_word s);
          sp = length (takeWhile is_space (drop w s))
      in if 0 < w \<and> take 3 (drop (w + sp) s) = ''::='' then Some (w + sp + 3) else None)"

definition structureKeywords :: "string list" where
  "structureKeywords = [''SEQUENCE'', ''SET'', ''CHOICE'', ''ENUMERATED'']"

text \<open>\<^verbatim>\<open>(?:SEQUENCE|SET|CHOICE|ENUMERATED)\<close> at the head of a string.\<close>

definition match_keyword :: "string \<Rightarrow> nat option" where
  "match_keyword s =
     (case filter (\<lambda>k. take (length k) s = k) structureKeywords of
        [] \<Rightarrow> None
      | k # _ \<Rightarrow> Some (length k))"

text \<open>
  \<^verbatim>\<open>\w+\s*::=\s*(?:SEQUENCE|SET|CHOICE|ENUMERATED)\s*\{\<close> at the head of a
  string: the length of the match, which ends with the opening brace.
\<close>

definition match_typedef_start :: "string \<Rightarrow> nat option" where
  "match_typedef_start s =
     (case match_assign s of
        None \<Rightarrow> None
      | Some n \<Rightarrow>
          let sp = length (takeWhile is_space (drop n s))
          in (case match_keyword (drop (n + sp) s) of
                None \<Rightarrow> None
              | Some k \<Rightarrow>
                  let sp2 = length (takeWhile is_space (drop (n + sp + k) s))
                  in if take 1 (drop (n + sp + k + sp2) s) = ''{''
                     then Some (n + sp + k + sp2 + 1) else None))"

text \<open>
  Step 1 of \<^verbatim>\<open>simpleFormatASN1\<close>:
  \<^verbatim>\<open>result.replace(/\}\s*(\w+\s*::=)/g, '}\n\n\n$1')\<close>.  The search goes from left
  to right and resumes after each match.
\<close>

function separateDefinitions :: "string \<Rightarrow> string" where
  "separateDefinitions [] = []"
| "separateDefinitions (c # cs) =
     (if c = CHR ''}'' then
        (case match_assign (dropWhile is_space cs) of
           Some n \<Rightarrow>
             ''}'' @ [NL, NL, NL] @ take n (dropWhile is_space cs) @
             separateDefinitions (drop n (dropWhile is_space cs))
         | None \<Rightarrow> c # separateDefinitions cs)
      else c # separateDefinitions cs)"
  by pat_completeness auto
termination
proof (relation "measure length")
  show "wf (measure length)" by simp
next
  fix c :: char and cs :: string and n :: nat
  have "length (drop n (dropWhile is_space cs)) \<le> length (dropWhile is_space cs)"
    by simp
  also have "\<dots> \<le> length cs"
    by (rule length_dropWhile_le)
  finally show "(drop n (dropWhile is_space cs), c # cs) \<in> measure length"
    by simp
next
  fix c :: char and cs :: string
  show "(cs, c # cs) \<in> measure length" by simp
next
  fix c :: char and cs :: string
  show "(cs, c # cs) \<in> measure length" by simp
qed

record brace_match =
  startPos :: nat
  endPos :: nat
  prefix :: string

text \<open>
  The \<^verbatim>\<open>exec\<close> loop of \<^verbatim>\<open>formatTypeDefinitionsWithNestedBraces\<close>: \<open>rest\<close> is
  the text from index \<open>i\<close> (the \<^verbatim>\<open>lastIndex\<close> of the expression) on.  A match whose
  opening brace has no closing brace is not recorded; the search resumes after the match
  in both cases.
\<close>

function collectMatches :: "string \<Rightarrow> nat \<Rightarrow> string \<Rightarrow> brace_match list" where
  "collectMatches code i [] = []"
| "collectMatches code i (c # cs) =
     (case match_typedef_start (c # cs) of
        None \<Rightarrow> collectMatches code (i + 1) cs
      | Some n \<Rightarrow>
          (let endPos = findMatchingBrace code (i + n - 1)
           in (if endPos \<noteq> - 1
               then [\<lparr>startPos = i, endPos = nat endPos, prefix = take n (c # cs)\<rparr>]
               else []) @
              collectMatches code (i + n) (drop n (c # cs))))"
  by pat_completeness auto
termination
  by (relation "measure (\<lambda>(code, i, rest). length rest)")
     (auto simp: match_typedef_start_def match_assign_def Let_def
           split: option.splits if_splits)

text \<open>One replacement of the second loop, on the text as changed so far.\<close>

definition replaceMatch :: "string \<Rightarrow> brace_match \<Rightarrow> string \<Rightarrow> string" where
  "replaceMatch code m result =
     (let original = substring code (int (startPos m)) (int (endPos m) + 1);
          formatted = formatSingleTypeDefinition original (prefix m)
      in take (startPos m) result @ formatted @ drop (endPos m + 1) result)"

text \<open>The matches are replaced from the last one to the first.\<close>

definition formatTypeDefinitionsWithNestedBraces :: "string \<Rightarrow> string" where
  "formatTypeDefinitionsWithNestedBraces code =
     foldr (replaceMatch code) (collectMatches code 0 code) code"

section \<open>Blank lines\<close>

text \<open>
  \<^verbatim>\<open>replace(/\n{3,}/g, '\n\n\n')\<close>: \<open>n\<close> counts the line feeds of the run being
  read; a run of three or more is written back as three, a shorter one unchanged.
\<close>

fun collapseNewlines :: "nat \<Rightarrow> string \<Rightarrow> string" where
  "collapseNewlines n [] = replicate (min n 3) NL"
| "collapseNewlines n (c # cs) =
     (if c = NL then collapseNewlines (n + 1) cs
      else replicate (min n 3) NL @ c # collapseNewlines 0 cs)"

text \<open>\<^verbatim>\<open>replace(/^\n+/, '')\<close>.\<close>

definition dropLeadingNewlines :: "string \<Rightarrow> string" where
  "dropLeadingNewlines s = dropWhile (\<lambda>c. c = NL) s"

text \<open>\<^verbatim>\<open>replace(/\n+$/, '\n')\<close>: a string that does not end with a line feed is left
  as it is.\<close>

definition collapseTrailingNewlines :: "string \<Rightarrow> string" where
  "collapseTrailingNewlines s =
     (if s \<noteq> [] \<and> last s = NL then rev (dropWhile (\<lambda>c. c = NL) (rev s)) @ [NL] else s)"

definition cleanupSpacing :: "string \<Rightarrow> string" where
  "cleanupSpacing code = collapseTrailingNewlines (dropLeadingNewlines (collapseNewlines 0 code))"

section \<open>The formatter\<close>

datatype fault = Fault

text \<open>No operation of \<^verbatim>\<open>simpleFormatASN1\<close> raises: it always returns its result.\<close>

definition simpleFormatASN1 :: "string \<Rightarrow> fault + string" where
  "simpleFormatASN1 code =
     Inr (cleanupSpacing (formatTypeDefinitionsWithNestedBraces (separateDefinitions (trim code))))"

record settings =
  indentSize :: nat
  maxLineLength :: nat
  autoWrapLongLines :: bool

text \<open>The loop of \<^verbatim>\<open>fallbackFormat\<close> over the lines, with the current indent level.\<close>

fun fallback_loop :: "string \<Rightarrow> int \<Rightarrow> string list \<Rightarrow> string list" where
  "fallback_loop indentStr indentLevel [] = []"
| "fallback_loop indentStr indentLevel (line # rest) =
     (let trimmed = trim line
      in if trimmed = [] then fallback_loop indentStr indentLevel rest
         else
           let level1 = (if trimmed = ''}'' \<or> startsWith trimmed ''}''
                         then max 0 (indentLevel - 1) else indentLevel);
               level2 = (if CHR ''{'' \<in> set trimmed \<and> CHR ''}'' \<notin> set trimmed
                         then level1 + 1 else level1)
           in (concat (replicate (nat level1) indentStr) @ trimmed) #
              fallback_loop indentStr level2 rest)"

definition fallbackFormat :: "settings \<Rightarrow> string \<Rightarrow> string" where
  "fallbackFormat st code =
     join [NL] (fallback_loop (replicate (indentSize st) CHR '' '') 0 (splitOn NL code))"

text \<open>The entry point: the structured formatter, and the fallback when it faults.\<close>

definition formatASN1Code :: "settings \<Rightarrow> string \<Rightarrow> string" where
  "formatASN1Code st code =
     (if trim code = [] then []
      else (case simpleFormatASN1 code of
              Inr result \<Rightarrow> result
            | Inl error \<Rightarrow> fallbackFormat st code))"

text \<open>The default settings of the plugin.\<close>

definition DEFAULT_SETTINGS :: settings where
  "DEFAULT_SETTINGS = \<lparr>indentSize = 2, maxLineLength = 80, autoWrapLongLines = True\<rparr>"

section \<open>The formatter as it runs\<close>

text \<open>
  The functions above give the results of the formatter.  This section gives its runs: a
  run that does not end is \<open>None\<close>, and one that raises is \<open>Inl Fault\<close>.

  \<^verbatim>\<open>typeDefStartRegex.exec(code)\<close>: the expression is global, so the search starts at
  its \<^verbatim>\<open>lastIndex\<close> and fails at once when that is beyond the end of the text.  The
  result is the index and the length of the leftmost match from there on.
\<close>

fun search_typedef :: "nat \<Rightarrow> string \<Rightarrow> (nat \<times> nat) option" where
  "search_typedef i [] = None"
| "search_typedef i (c # cs) =
     (case match_typedef_start (c # cs) of
        Some n \<Rightarrow> Some (i, n)
      | None \<Rightarrow> search_typedef (i + 1) cs)"

definition regex_exec :: "string \<Rightarrow> nat \<Rightarrow> (nat \<times> nat) option" where
  "regex_exec code lastIndex =
     (if length code < lastIndex then None else search_typedef lastIndex (drop lastIndex code))"

text \<open>
  The first loop of \<^verbatim>\<open>formatTypeDefinitionsWithNestedBraces\<close>,
  \<^verbatim>\<open>while ((match = typeDefStartRegex.exec(code)) !== null)\<close>: it goes on for as
  long as the expression matches, from the \<^verbatim>\<open>lastIndex\<close> that the match before has
  left.
\<close>

partial_function (option) exec_loop :: "string \<Rightarrow> nat \<Rightarrow> brace_match list \<Rightarrow> brace_match list option"
where
  "exec_loop code lastIndex matches =
     (case regex_exec code lastIndex of
        None \<Rightarrow> Some matches
      | Some m \<Rightarrow>
          exec_loop code (fst m + snd m)
            (if findMatchingBrace code (fst m + snd m - 1) \<noteq> - 1
             then matches @ [\<lparr>startPos = fst m,
                               endPos = nat (findMatchingBrace code (fst m + snd m - 1)),
                               prefix = take (snd m) (drop (fst m) code)\<rparr>]
             else matches))"

text \<open>
  The second loop, \<^verbatim>\<open>for (let i = matches.length - 1; i >= 0; i--)\<close>, with \<open>k\<close> for
  \<^verbatim>\<open>i + 1\<close>.  Destructuring \<^verbatim>\<open>matches[i]\<close> raises a \<^verbatim>\<open>TypeError\<close> when the list
  has no element at \<^verbatim>\<open>i\<close>.
\<close>

fun replace_loop :: "string \<Rightarrow> brace_match list \<Rightarrow> nat \<Rightarrow> string \<Rightarrow> fault + string" where
  "replace_loop code matches 0 result = Inr result"
| "replace_loop code matches (Suc i) result =
     (if i < length matches
      then replace_loop code matches i (replaceMatch code (matches ! i) result)
      else Inl Fault)"

definition run_formatTypeDefinitionsWithNestedBraces :: "string \<Rightarrow> (fault + string) option" where
  "run_formatTypeDefinitionsWithNestedBraces code =
     (case exec_loop code 0 [] of
        None \<Rightarrow> None
      | Some matches \<Rightarrow> Some (replace_loop code matches (length matches) code))"

definition run_simpleFormatASN1 :: "string \<Rightarrow> (fault + string) option" where
  "run_simpleFormatASN1 code =
     (case run_formatTypeDefinitionsWithNestedBraces (separateDefinitions (trim code)) of
        None \<Rightarrow> None
      | Some (Inl e) \<Rightarrow> Some (Inl e)
      | Some (Inr result) \<Rightarrow> Some (Inr (cleanupSpacing result)))"

text \<open>
  \<^verbatim>\<open>formatASN1Code\<close> catches what the structured formatter raises and formats with
  the fallback then; the fallback itself raises nothing.
\<close>

definition run_formatASN1Code :: "settings \<Rightarrow> string \<Rightarrow> (fault + string) option" where
  "run_formatASN1Code st code =
     (if trim code = [] then Some (Inr [])
      else (case run_simpleFormatASN1 code of
              None \<Rightarrow> None
            | Some (Inr result) \<Rightarrow> Some (Inr result)
            | Some (Inl e) \<Rightarrow> Some (Inr (fallbackFormat st code))))"

section \<open>Auxiliary predicates\<close>

text \<open>A text that is not empty and has no whitespace at either end.\<close>

definition tight :: "string \<Rightarrow> bool" where
  "tight s = (s \<noteq> [] \<and> \<not> is_space (hd s) \<and> \<not> is_space (last s))"

text \<open>
  What every recorded match satisfies: it starts on a word character, its prefix ends
  with the opening brace, and its end is a closing brace further on in the text.
\<close>

definition good_match :: "string \<Rightarrow> brace_match \<Rightarrow> bool" where
  "good_match code m =
     (startPos m < endPos m \<and> endPos m < length code \<and> is_word (code ! startPos m) \<and>
      code ! endPos m = CHR ''}'' \<and> prefix m \<noteq> [] \<and> is_word (hd (prefix m)) \<and>
      last (prefix m) = CHR ''{'')"

section \<open>Reference descriptions\<close>

text \<open>
  The bracket matcher as the specification words it: the scan starts after the opening
  brace with the depth counter at 1, the in-string flag is toggled by every double quote
  that no backslash precedes, braces count only outside strings, and the first index at
  which the depth is 0 is the result; the end of the text gives no result.
\<close>

fun close_scan :: "char option \<Rightarrow> nat \<Rightarrow> int \<Rightarrow> bool \<Rightarrow> string \<Rightarrow> nat option" where
  "close_scan prev i depth inStr [] = None"
| "close_scan prev i depth inStr (ch # rest) =
     (let inStr' = (if ch = DQUOTE \<and> prev \<noteq> Some BACKSLASH then \<not> inStr else inStr);
          depth' = (if inStr' then depth
                    else if ch = CHR ''{'' then depth + 1
                    else if ch = CHR ''}'' then depth - 1
                    else depth)
      in if depth' = 0 then Some i else close_scan (Some ch) (i + 1) depth' inStr' rest)"

definition spec_findMatchingClose :: "string \<Rightarrow> nat \<Rightarrow> nat option" where
  "spec_findMatchingClose code openIndex =
     close_scan (Some (code ! openIndex)) (openIndex + 1) 1 False (drop (openIndex + 1) code)"

text \<open>
  The top-level commas of a text: for every character, whether it is a comma outside
  string literals at which the three bracket counters are all 0.  The counters and the
  string flag are tracked as in the bracket matcher.
\<close>

fun topLevelCommas :: "char option \<Rightarrow> int \<Rightarrow> int \<Rightarrow> int \<Rightarrow> bool \<Rightarrow> string \<Rightarrow> bool list" where
  "topLevelCommas prev b p k inStr [] = []"
| "topLevelCommas prev b p k inStr (ch # rest) =
     (let inStr' = (if ch = DQUOTE \<and> prev \<noteq> Some BACKSLASH then \<not> inStr else inStr);
          b' = (if inStr' then b else if ch = CHR ''{'' then b + 1 else if ch = CHR ''}'' then b - 1 else b);
          p' = (if inStr' then p else if ch = CHR ''('' then p + 1 else if ch = CHR '')'' then p - 1 else p);
          k' = (if inStr' then k else if ch = CHR ''['' then k + 1 else if ch = CHR '']'' then k - 1 else k)
      in (\<not> inStr' \<and> ch = CHR '','' \<and> b = 0 \<and> p = 0 \<and> k = 0) #
         topLevelCommas (Some ch) b' p' k' inStr' rest)"

text \<open>The segments of a text between the marked separators, in order.\<close>

fun segmentsAt :: "bool list \<Rightarrow> string \<Rightarrow> string list" where
  "segmentsAt (sep # seps) (ch # rest) =
     (if sep then [] # segmentsAt seps rest
      else (case segmentsAt seps rest of [] \<Rightarrow> [[ch]] | seg # segs \<Rightarrow> (ch # seg) # segs))"
| "segmentsAt seps rest = [[]]"

text \<open>Only the last segment is dropped, when it is blank.\<close>

definition dropBlankLast :: "string list \<Rightarrow> string list" where
  "dropBlankLast segs = (if trim (last segs) = [] then butlast segs else segs)"

text \<open>The lines the fallback indenter keeps: the non-blank ones, trimmed.\<close>

definition keptLines :: "string \<Rightarrow> string list" where
  "keptLines code = filter (\<lambda>l. l \<noteq> []) (map trim (splitOn NL code))"

text \<open>
  The depth of each kept line: one less (but not below 0) at a line that starts with a
  closing brace, and one more after a line with an opening and no closing brace.
\<close>

fun lineDepths :: "int \<Rightarrow> string list \<Rightarrow> int list" where
  "lineDepths depth [] = []"
| "lineDepths depth (t # ts) =
     (let d1 = (if startsWith t ''}'' then max 0 (depth - 1) else depth);
          d2 = (if CHR ''{'' \<in> set t \<and> CHR ''}'' \<notin> set t then d1 + 1 else d1)
      in d1 # lineDepths d2 ts)"

text \<open>Three consecutive empty lines among the lines of a text.\<close>

fun three_empty :: "string list \<Rightarrow> bool" where
  "three_empty (a # b # c # ls) = ((a = [] \<and> b = [] \<and> c = []) \<or> three_empty (b # c # ls))"
| "three_empty ls = False"

text \<open>
  The field normalizer as the specification words it.  Trimming removes the whitespace
  at both ends: as many characters as the text has whitespace at its head are dropped,
  and as many as it has at its end.
\<close>

definition spec_trim :: "string \<Rightarrow> string" where
  "spec_trim s =
     (let a = length (takeWhile is_space s);
          b = length (takeWhile is_space (rev s))
      in take (length s - a - b) (drop a s))"

text \<open>
  Stripping a trailing comma: when the last character that is not whitespace is a comma,
  that comma and what follows it are removed.
\<close>

definition spec_stripComma :: "string \<Rightarrow> string" where
  "spec_stripComma s =
     (let t = rev (dropWhile is_space (rev s))
      in if t \<noteq> [] \<and> last t = CHR '','' then butlast t else s)"

text \<open>
  Collapsing the whitespace runs: a whitespace character that starts a run is written as
  one space, and one that continues a run is not written; \<open>inRun\<close> tells whether the
  character before was whitespace.
\<close>

fun spec_collapse :: "bool \<Rightarrow> string \<Rightarrow> string" where
  "spec_collapse inRun [] = []"
| "spec_collapse inRun (c # cs) =
     (if is_space c then (if inRun then spec_collapse True cs else CHR '' '' # spec_collapse True cs)
      else c # spec_collapse False cs)"

definition spec_normalize :: "string \<Rightarrow> string" where
  "spec_normalize x = spec_collapse False (spec_stripComma (spec_trim x))"

text \<open>
  The depth rule of the fallback indenter as the specification words it: the counter is
  incremented after a line containing an unmatched opening brace, that is an opening
  brace that no later closing brace of the line closes, and decremented at a line that is
  or starts with a closing brace.
\<close>

fun open_braces :: "nat \<Rightarrow> string \<Rightarrow> nat" where
  "open_braces n [] = n"
| "open_braces n (c # cs) =
     (if c = CHR ''{'' then open_braces (n + 1) cs
      else if c = CHR ''}'' then open_braces (n - 1) cs
      else open_braces n cs)"

fun spec_lineDepths :: "int \<Rightarrow> string list \<Rightarrow> int list" where
  "spec_lineDepths depth [] = []"
| "spec_lineDepths depth (t # ts) =
     (let d1 = (if startsWith t ''}'' then max 0 (depth - 1) else depth);
          d2 = (if 0 < open_braces 0 t then d1 + 1 else d1)
      in d1 # spec_lineDepths d2 ts)"

section \<open>Structured documents\<close>

text \<open>
  A class of inputs on which the formatter can be followed step by step: structured
  type definitions with text between them.  The definitions of this section describe
  the inputs and the documents the formatter writes for them.
\<close>

text \<open>
  A structured type definition as the formatter reads it: its name, the whitespace on
  either side of the assignment operator, the keyword, the whitespace before the opening
  brace, and the segments of the body between its top-level commas.
\<close>

record structured_def =
  d_name :: string
  d_sp1 :: string
  d_sp2 :: string
  d_kw :: string
  d_sp3 :: string
  d_fields :: "string list"

text \<open>
  The text of a definition up to and including the opening brace; this is what the
  expression of \<^verbatim>\<open>formatTypeDefinitionsWithNestedBraces\<close> matches.
\<close>

definition header :: "structured_def \<Rightarrow> string" where
  "header D = d_name D @ d_sp1 D @ ''::='' @ d_sp2 D @ d_kw D @ d_sp3 D @ ''{''"

text \<open>
  The name is a non-empty word, the keyword is one of the four, and the rest of the header
  is whitespace.
\<close>

definition header_ok :: "structured_def \<Rightarrow> bool" where
  "header_ok D =
     (d_name D \<noteq> [] \<and> list_all is_word (d_name D) \<and> list_all is_space (d_sp1 D) \<and>
      list_all is_space (d_sp2 D) \<and> d_kw D \<in> set structureKeywords \<and> list_all is_space (d_sp3 D))"

text \<open>
  One character of the scans of \<^verbatim>\<open>splitTopLevelByComma\<close> and \<^verbatim>\<open>findMatchingBrace\<close>
  over a field: the bracket counters and the string flag after the character, with
  \<open>esc\<close> telling whether the character before was a backslash.  There is no result at
  a closing brace outside strings that closes no brace of the field, and at a comma
  outside strings at which all three counters are 0.
\<close>

definition scan_step :: "bool \<Rightarrow> int \<Rightarrow> int \<Rightarrow> int \<Rightarrow> bool \<Rightarrow> char \<Rightarrow> (int \<times> int \<times> int \<times> bool) option" where
  "scan_step esc b p k q c =
     (let q' = (if c = DQUOTE \<and> \<not> esc then \<not> q else q)
      in if q' then Some (b, p, k, q')
         else if c = CHR ''{'' then Some (b + 1, p, k, q')
         else if c = CHR ''}'' then (if b \<le> 0 then None else Some (b - 1, p, k, q'))
         else if c = CHR ''('' then Some (b, p + 1, k, q')
         else if c = CHR '')'' then Some (b, p - 1, k, q')
         else if c = CHR ''['' then Some (b, p, k + 1, q')
         else if c = CHR '']'' then Some (b, p, k - 1, q')
         else if c = CHR '','' \<and> b = 0 \<and> p = 0 \<and> k = 0 then None
         else Some (b, p, k, q'))"

text \<open>
  The scan of a whole text.
\<close>

fun bracket_scan :: "bool \<Rightarrow> int \<Rightarrow> int \<Rightarrow> int \<Rightarrow> bool \<Rightarrow> string \<Rightarrow> (int \<times> int \<times> int \<times> bool) option" where
  "bracket_scan esc b p k q [] = Some (b, p, k, q)"
| "bracket_scan esc b p k q (c # cs) =
     (case scan_step esc b p k q c of
        None \<Rightarrow> None
      | Some (b', p', k', q') \<Rightarrow> bracket_scan (c = BACKSLASH) b' p' k' q' cs)"

text \<open>
  A field: its brackets outside string literals are balanced, its string literals are
  closed, it holds no comma outside brackets and strings and no assignment operator, and
  it is not blank.
\<close>

definition field_ok :: "string \<Rightarrow> bool" where
  "field_ok f = (bracket_scan False 0 0 0 False f = Some (0, 0, 0, False) \<and> trim f \<noteq> [] \<and>
                 \<not> includes_str f ''::='')"

text \<open>
  A body of whitespace only.
\<close>

definition blank_body :: "string list \<Rightarrow> bool" where
  "blank_body fs = (trim (join '','' fs) = [])"

text \<open>
  The body of a well-formed definition is blank or made of fields.
\<close>

definition fields_ok :: "string list \<Rightarrow> bool" where
  "fields_ok fs = (blank_body fs \<or> (fs \<noteq> [] \<and> list_all field_ok fs))"


text \<open>
  The text of a definition.
\<close>

definition render_def :: "structured_def \<Rightarrow> string" where
  "render_def D = header D @ join '','' (d_fields D) @ ''}''"

definition wf_def :: "structured_def \<Rightarrow> bool" where
  "wf_def D = (header_ok D \<and> fields_ok (d_fields D))"

text \<open>
  A document is a leading text followed by items.  An item is a block and the text after
  it; a block is a structured type definition or a closing brace that belongs to none,
  such as the end of the list in \<^verbatim>\<open>INTEGER { red(0) }\<close>.
\<close>

datatype block = Def structured_def | Close

type_synonym item = "block \<times> string"

fun render_block :: "block \<Rightarrow> string" where
  "render_block (Def D) = render_def D"
| "render_block Close = ''}''"

fun block_ok :: "block \<Rightarrow> bool" where
  "block_ok (Def D) = wf_def D"
| "block_ok Close = True"

fun render_items :: "item list \<Rightarrow> string" where
  "render_items [] = []"
| "render_items ((B, g) # xs) = render_block B @ g @ render_items xs"


text \<open>
  Whether the expression of \<^verbatim>\<open>formatTypeDefinitionsWithNestedBraces\<close> matches somewhere
  in a text.
\<close>

fun has_typedef :: "string \<Rightarrow> bool" where
  "has_typedef [] = False"
| "has_typedef (c # cs) = (match_typedef_start (c # cs) \<noteq> None \<or> has_typedef cs)"

text \<open>
  The text before, between and after the blocks holds no closing brace, as each one is a
  block, and no start of a structured type definition, as each one is a definition of
  the document.
\<close>

definition gap_ok :: "string \<Rightarrow> bool" where
  "gap_ok g = (CHR ''}'' \<notin> set g \<and> \<not> has_typedef g)"

text \<open>
  A text that is followed by a definition does not end with a word character, so that the
  name of the definition starts where the text ends.
\<close>

definition open_gap :: "string \<Rightarrow> bool" where
  "open_gap g = (g = [] \<or> \<not> is_word (last g))"

text \<open>
  Whether a list of items starts with a definition.
\<close>

fun next_def :: "item list \<Rightarrow> bool" where
  "next_def ((Def D, g) # xs) = True"
| "next_def xs = False"

fun items_ok :: "item list \<Rightarrow> bool" where
  "items_ok [] = True"
| "items_ok ((B, g) # xs) =
     (block_ok B \<and> gap_ok g \<and> (\<not> next_def xs \<or> open_gap g) \<and> items_ok xs)"














section \<open>Properties of the field normalizer\<close>

lemma trimEnd_eq_Nil: "trimEnd s = [] \<longleftrightarrow> list_all is_space s"
  unfolding trimEnd_def by (simp add: dropWhile_eq_Nil_conv list_all_iff)

lemma length_collapseWhitespace: "length (collapseWhitespace s) \<le> length s"
proof (induction s rule: collapseWhitespace.induct)
  case 1 show ?case by simp
next
  case (2 c cs)
  have "length (dropWhile is_space cs) \<le> length cs" by (rule length_dropWhile_le)
  with 2 show ?case by (cases "is_space c") auto
qed

lemma length_stripTrailingComma: "length (stripTrailingComma s) \<le> length s"
  by (induction s) auto

lemma length_trimEnd: "length (trimEnd s) \<le> length s"
  unfolding trimEnd_def using length_dropWhile_le[of is_space "rev s"] by simp

lemma length_trim: "length (trim s) \<le> length s"
  unfolding trim_def trimStart_def
  using length_dropWhile_le[of is_space "trimEnd s"] length_trimEnd[of s] by linarith

lemma length_normalize: "length (normalizeFieldContent s) \<le> length s"
  unfolding normalizeFieldContent_def
  using length_collapseWhitespace[of "stripTrailingComma (trim s)"]
    length_stripTrailingComma[of "trim s"] length_trim[of s] by linarith

lemma trimEnd_id: "s \<noteq> [] \<Longrightarrow> \<not> is_space (last s) \<Longrightarrow> trimEnd s = s"
  unfolding trimEnd_def by (cases s rule: rev_cases) auto

lemma trim_id: "s \<noteq> [] \<Longrightarrow> \<not> is_space (hd s) \<Longrightarrow> \<not> is_space (last s) \<Longrightarrow> trim s = s"
  unfolding trim_def trimStart_def by (cases s) (auto simp: trimEnd_id)

lemma trimEnd_last_space: "s \<noteq> [] \<Longrightarrow> is_space (last s) \<Longrightarrow> length (trimEnd s) < length s"
proof -
  assume a: "s \<noteq> []" "is_space (last s)"
  then obtain ys y where s: "s = ys @ [y]" by (cases s rule: rev_cases) auto
  with a have "is_space y" by simp
  with s have "trimEnd s = rev (dropWhile is_space (rev ys))" by (simp add: trimEnd_def)
  moreover have "length (dropWhile is_space (rev ys)) \<le> length (rev ys)" by (rule length_dropWhile_le)
  ultimately show ?thesis using s by simp
qed

lemma trim_last_space: "s \<noteq> [] \<Longrightarrow> is_space (last s) \<Longrightarrow> length (trim s) < length s"
  unfolding trim_def trimStart_def
  using length_dropWhile_le[of is_space "trimEnd s"] trimEnd_last_space[of s] by linarith

lemma stripTrailingComma_id:
  "s \<noteq> [] \<Longrightarrow> \<not> is_space (last s) \<Longrightarrow> last s \<noteq> CHR '','' \<Longrightarrow> stripTrailingComma s = s"
proof (induction s)
  case Nil then show ?case by simp
next
  case (Cons c cs)
  show ?case
  proof (cases "cs = []")
    case True with Cons.prems show ?thesis by simp
  next
    case False
    with Cons.prems have l: "\<not> is_space (last cs)" "last cs \<noteq> CHR '',''" by auto
    from False l(1) have "\<not> list_all is_space cs"
      by (metis last_in_set list_all_iff)
    with Cons.IH[OF False l] show ?thesis by simp
  qed
qed

lemma stripTrailingComma_last_comma:
  "s \<noteq> [] \<Longrightarrow> last s = CHR '','' \<Longrightarrow> length (stripTrailingComma s) < length s"
proof (induction s)
  case Nil then show ?case by simp
next
  case (Cons c cs)
  show ?case
  proof (cases "cs = []")
    case True with Cons.prems show ?thesis by simp
  next
    case False
    with Cons.prems have "last cs = CHR '',''" by simp
    from Cons.IH[OF False this] show ?thesis by simp
  qed
qed

lemma collapseWhitespace_idem: "collapseWhitespace (collapseWhitespace s) = collapseWhitespace s"
proof (induction s rule: collapseWhitespace.induct)
  case 1 show ?case by simp
next
  case (2 c cs)
  show ?case
  proof (cases "is_space c")
    case False with 2 show ?thesis by simp
  next
    case True
    have sp: "is_space (CHR '' '')" by (simp add: is_space_def)
    have hd: "collapseWhitespace (dropWhile is_space cs) = [] \<or> \<not> is_space (hd (collapseWhitespace (dropWhile is_space cs)))"
    proof (cases "dropWhile is_space cs")
      case Nil then show ?thesis by (simp del: dropWhile_eq_Nil_conv)
    next
      case (Cons d ds)
      then have "\<not> is_space d" by (metis hd_dropWhile list.distinct(1) list.sel(1))
      with Cons show ?thesis by simp
    qed
    then have "dropWhile is_space (collapseWhitespace (dropWhile is_space cs)) = collapseWhitespace (dropWhile is_space cs)"
      by (cases "collapseWhitespace (dropWhile is_space cs)") auto
    with True sp 2 show ?thesis by simp
  qed
qed


lemma collapseWhitespace_spaces:
  "c \<in> set (collapseWhitespace s) \<Longrightarrow> is_space c \<Longrightarrow> c = CHR '' ''"
proof (induction s rule: collapseWhitespace.induct)
  case 1 then show ?case by simp
next
  case (2 d ds)
  then show ?case by (cases "is_space d") auto
qed

lemma collapseWhitespace_hd:
  "s \<noteq> [] \<Longrightarrow> \<not> is_space (hd s) \<Longrightarrow>
   collapseWhitespace s \<noteq> [] \<and> hd (collapseWhitespace s) = hd s"
  by (cases s) auto

lemma stripTrailingComma_hd:
  "stripTrailingComma s = [] \<or> hd (stripTrailingComma s) = hd s"
  by (cases s) auto

lemma trim_hd: "trim s = [] \<or> \<not> is_space (hd (trim s))"
  unfolding trim_def trimStart_def
  by (metis hd_dropWhile)

lemma normalize_hd:
  "normalizeFieldContent x = [] \<or> \<not> is_space (hd (normalizeFieldContent x))"
proof (cases "stripTrailingComma (trim x) = []")
  case True then show ?thesis by (simp add: normalizeFieldContent_def)
next
  case False
  then have t: "trim x \<noteq> []" by auto
  with trim_hd[of x] have "\<not> is_space (hd (trim x))" by simp
  with stripTrailingComma_hd[of "trim x"] False
  have "\<not> is_space (hd (stripTrailingComma (trim x)))" by simp
  with collapseWhitespace_hd[OF False] show ?thesis
    by (simp add: normalizeFieldContent_def)
qed

lemma comma_not_space: "\<not> is_space (CHR '','')"
  by (simp add: is_space_def)

text \<open>
  Claim C7, as stated, fails: the normalizer removes one trailing comma only, so a second
  application can remove another.  On \<open>a,,\<close> the first application gives \<open>a,\<close> and
  the second gives \<open>a\<close>.
\<close>

theorem normalizeFieldContent_not_idempotent:
  "normalizeFieldContent (normalizeFieldContent ''a,,'') \<noteq> normalizeFieldContent ''a,,''"
  by (simp add: normalizeFieldContent_def trim_def trimStart_def trimEnd_def is_space_def)

lemma takeWhile_pad:
  "\<forall>c\<in>set a. P c \<Longrightarrow> \<not> P x \<Longrightarrow> takeWhile P (a @ x # b) = a"
  by (induction a) simp_all

lemma dropWhile_pad:
  "\<forall>c\<in>set a. P c \<Longrightarrow> \<not> P x \<Longrightarrow> dropWhile P (a @ x # b) = x # b"
  by (induction a) simp_all

lemma trim_spec: "trim s = spec_trim s"
proof -
  define w1 where "w1 = takeWhile is_space s"
  define t where "t = dropWhile is_space s"
  have s: "s = w1 @ t" by (simp add: w1_def t_def)
  show ?thesis
  proof (cases "t = []")
    case True
    then have all: "\<forall>c\<in>set s. is_space c" by (simp add: t_def dropWhile_eq_Nil_conv)
    then have tw: "takeWhile is_space s = s"
      by (simp add: takeWhile_eq_all_conv)
    have "spec_trim s = []" unfolding spec_trim_def Let_def tw by simp
    moreover have "trim s = []"
    proof -
      have "trimEnd s = []" using all by (simp add: trimEnd_eq_Nil list_all_iff)
      then show ?thesis by (simp add: trim_def trimStart_def)
    qed
    ultimately show ?thesis by simp
  next
    case False
    define w2 where "w2 = rev (takeWhile is_space (rev t))"
    define m where "m = rev (dropWhile is_space (rev t))"
    have t: "t = m @ w2"
    proof -
      have "rev (takeWhile is_space (rev t) @ dropWhile is_space (rev t)) =
          rev (dropWhile is_space (rev t)) @ rev (takeWhile is_space (rev t))"
        by (rule rev_append)
      moreover have "takeWhile is_space (rev t) @ dropWhile is_space (rev t) = rev t"
        by (rule takeWhile_dropWhile_id)
      ultimately have "rev (rev t) =
          rev (dropWhile is_space (rev t)) @ rev (takeWhile is_space (rev t))"
        by (simp only:)
      then show ?thesis by (simp only: rev_rev_ident m_def w2_def)
    qed
    have ht: "\<not> is_space (hd t)" using False unfolding t_def by (rule hd_dropWhile)
    have mne: "m \<noteq> []"
    proof
      assume "m = []"
      then have "\<forall>c\<in>set t. is_space c" by (simp add: m_def dropWhile_eq_Nil_conv)
      with False ht show False by (cases t) auto
    qed
    have lm: "\<not> is_space (last m)"
    proof -
      have "dropWhile is_space (rev t) \<noteq> []" using mne by (simp add: m_def)
      then have "\<not> is_space (hd (dropWhile is_space (rev t)))" by (rule hd_dropWhile)
      then show ?thesis using mne by (simp add: m_def last_rev)
    qed
    have hm: "\<not> is_space (hd m)" using ht mne by (simp add: t)
    have w2: "\<forall>c\<in>set w2. is_space c" by (auto simp: w2_def dest: set_takeWhileD)
    have w1: "\<forall>c\<in>set w1. is_space c" by (auto simp: w1_def dest: set_takeWhileD)
    have rs: "rev s = rev w2 @ rev m @ rev w1" by (simp add: s t)
    obtain y ys where rm: "rev m = y # ys" using mne by (cases "rev m") auto
    have y: "\<not> is_space y" using lm mne rm by (metis hd_rev list.sel(1))
    have rw2: "\<forall>c\<in>set (rev w2). is_space c" using w2 by simp
    have "takeWhile is_space (rev w2 @ y # (ys @ rev w1)) = rev w2"
      using rw2 y by (rule takeWhile_pad)
    then have b: "length (takeWhile is_space (rev s)) = length w2" by (simp add: rs rm)
    have a: "length (takeWhile is_space s) = length w1" by (simp add: w1_def)
    have "spec_trim s = take (length s - length w1 - length w2) (drop (length w1) s)"
      by (simp add: spec_trim_def Let_def a b)
    also have "\<dots> = m" by (simp add: s t)
    finally have sp: "spec_trim s = m" .
    have "dropWhile is_space (rev w2 @ y # (ys @ rev w1)) = y # (ys @ rev w1)"
      using rw2 y by (rule dropWhile_pad)
    then have "dropWhile is_space (rev s) = rev m @ rev w1" by (simp add: rs rm)
    then have "trimEnd s = w1 @ m" by (simp add: trimEnd_def)
    moreover have "dropWhile is_space (w1 @ m) = m"
    proof -
      obtain z zs where m: "m = z # zs" using mne by (cases m) auto
      with hm have "\<not> is_space z" by simp
      with w1 have "dropWhile is_space (w1 @ z # zs) = z # zs" by (rule dropWhile_pad)
      then show ?thesis by (simp add: m)
    qed
    ultimately have "trim s = m" by (simp add: trim_def trimStart_def)
    with sp show ?thesis by simp
  qed
qed

lemma stripTrailingComma_at:
  "list_all is_space w \<Longrightarrow> stripTrailingComma (p @ CHR '','' # w) = p"
proof (induction p)
  case Nil
  then show ?case by simp
next
  case (Cons c p)
  have "\<not> list_all is_space (p @ CHR '','' # w)" by (simp add: comma_not_space)
  with Cons show ?case by simp
qed

lemma stripTrailingComma_none:
  "rev (dropWhile is_space (rev s)) = [] \<or> last (rev (dropWhile is_space (rev s))) \<noteq> CHR '','' \<Longrightarrow>
   stripTrailingComma s = s"
proof (induction s)
  case Nil
  show ?case by simp
next
  case (Cons c cs)
  show ?case
  proof (cases "list_all is_space cs")
    case True
    then have d: "dropWhile is_space (rev cs @ [c]) = dropWhile is_space [c]"
      by (intro dropWhile_append2) (simp add: list_all_iff)
    have "c \<noteq> CHR '',''"
    proof
      assume "c = CHR '',''"
      with Cons.prems d show False by (simp add: comma_not_space)
    qed
    moreover have "stripTrailingComma cs = cs"
      using True by (intro Cons.IH) (simp add: list_all_iff dropWhile_eq_Nil_conv)
    ultimately show ?thesis by simp
  next
    case False
    then obtain x where x: "x \<in> set (rev cs)" "\<not> is_space x" by (auto simp: list_all_iff)
    then have d: "dropWhile is_space (rev cs @ [c]) = dropWhile is_space (rev cs) @ [c]"
      by (rule dropWhile_append1)
    have ne: "dropWhile is_space (rev cs) \<noteq> []" using x by (auto simp: dropWhile_eq_Nil_conv)
    define q where "q = dropWhile is_space (rev cs)"
    have qne: "q \<noteq> []" using ne by (simp add: q_def)
    have e: "rev (dropWhile is_space (rev (c # cs))) = c # rev q"
      using d by (simp add: q_def)
    have "last (c # rev q) = last (rev q)" using qne by simp
    with Cons.prems have "last (rev q) \<noteq> CHR '',''" unfolding e by simp
    then have "stripTrailingComma cs = cs" unfolding q_def by (intro Cons.IH) simp
    with False show ?thesis by simp
  qed
qed

lemma stripTrailingComma_spec: "stripTrailingComma s = spec_stripComma s"
proof -
  define t where "t = rev (dropWhile is_space (rev s))"
  define w where "w = rev (takeWhile is_space (rev s))"
  have s: "s = t @ w"
  proof -
    have "rev (takeWhile is_space (rev s) @ dropWhile is_space (rev s)) =
        rev (dropWhile is_space (rev s)) @ rev (takeWhile is_space (rev s))"
      by (rule rev_append)
    moreover have "takeWhile is_space (rev s) @ dropWhile is_space (rev s) = rev s"
      by (rule takeWhile_dropWhile_id)
    ultimately have "rev (rev s) =
        rev (dropWhile is_space (rev s)) @ rev (takeWhile is_space (rev s))"
      by (simp only:)
    then show ?thesis by (simp only: rev_rev_ident t_def w_def)
  qed
  have w: "list_all is_space w" by (auto simp: w_def list_all_iff dest: set_takeWhileD)
  show ?thesis
  proof (cases "t \<noteq> [] \<and> last t = CHR '',''")
    case True
    then have "t = butlast t @ [CHR '','']" by (metis append_butlast_last_id)
    then have "s = butlast t @ CHR '','' # w" using s by (metis append_Cons append_Nil append_assoc)
    then have "stripTrailingComma s = butlast t" using stripTrailingComma_at[OF w] by metis
    moreover have "spec_stripComma s = butlast t"
      using True unfolding spec_stripComma_def Let_def t_def[symmetric] by (rule if_P)
    ultimately show ?thesis by simp
  next
    case False
    then have "stripTrailingComma s = s"
      by (intro stripTrailingComma_none) (auto simp: t_def)
    moreover have "spec_stripComma s = s"
      using False unfolding spec_stripComma_def Let_def t_def[symmetric] by (rule if_not_P)
    ultimately show ?thesis by simp
  qed
qed

lemma collapseWhitespace_spec:
  "spec_collapse False s = collapseWhitespace s \<and>
   spec_collapse True s = collapseWhitespace (dropWhile is_space s)"
  by (induction s) simp_all

lemma normalizeFieldContent_spec: "normalizeFieldContent x = spec_normalize x"
  by (simp add: normalizeFieldContent_def spec_normalize_def trim_spec stripTrailingComma_spec
      collapseWhitespace_spec)

text \<open>
  Claim C7, amended: the normalizer trims its input, strips one trailing comma (with the
  whitespace after it) and collapses every whitespace run to one space, as the
  specification words these three steps; and applying it twice gives the same as applying
  it once exactly when the normalized field is empty or ends in neither a comma nor a
  space.
\<close>

theorem normalizeFieldContent_idempotent_iff:
  "normalizeFieldContent x = spec_collapse False (spec_stripComma (spec_trim x)) \<and>
   (normalizeFieldContent (normalizeFieldContent x) = normalizeFieldContent x \<longleftrightarrow>
    (normalizeFieldContent x = [] \<or>
     (last (normalizeFieldContent x) \<noteq> CHR '','' \<and> last (normalizeFieldContent x) \<noteq> CHR '' '')))"
proof -
  define r where "r = normalizeFieldContent x"
  have A: "collapseWhitespace r = r"
    by (simp add: r_def normalizeFieldContent_def collapseWhitespace_idem)
  have B: "r = [] \<or> \<not> is_space (hd r)"
    using normalize_hd[of x] by (simp add: r_def)
  have C: "\<And>c. c \<in> set r \<Longrightarrow> is_space c \<Longrightarrow> c = CHR '' ''"
    unfolding r_def normalizeFieldContent_def by (rule collapseWhitespace_spaces)
  have "normalizeFieldContent r = r \<longleftrightarrow> (r = [] \<or> (last r \<noteq> CHR '','' \<and> last r \<noteq> CHR '' ''))"
  proof (cases "r = []")
    case True
    then show ?thesis by (simp add: normalizeFieldContent_def trim_def trimStart_def trimEnd_def)
  next
    case False
    with B have hd: "\<not> is_space (hd r)" by simp
    show ?thesis
    proof (cases "last r = CHR '','' \<or> last r = CHR '' ''")
      case False
      then have nc: "last r \<noteq> CHR '',''" and ns: "last r \<noteq> CHR '' ''" by auto
      from C[of "last r"] ns \<open>r \<noteq> []\<close> have nsp: "\<not> is_space (last r)" by auto
      have "trim r = r" using \<open>r \<noteq> []\<close> hd nsp by (rule trim_id)
      moreover have "stripTrailingComma r = r" using \<open>r \<noteq> []\<close> nsp nc by (rule stripTrailingComma_id)
      ultimately show ?thesis using A nc ns by (simp add: normalizeFieldContent_def)
    next
      case True
      have "length (normalizeFieldContent r) < length r"
      proof (cases "last r = CHR '' ''")
        case True
        then have "is_space (last r)" by (simp add: is_space_def)
        with \<open>r \<noteq> []\<close> have "length (trim r) < length r" by (rule trim_last_space)
        moreover have "length (normalizeFieldContent r) \<le> length (trim r)"
          unfolding normalizeFieldContent_def
          using length_collapseWhitespace[of "stripTrailingComma (trim r)"]
            length_stripTrailingComma[of "trim r"] by linarith
        ultimately show ?thesis by linarith
      next
        case False
        with True have lc: "last r = CHR '',''" by simp
        then have "\<not> is_space (last r)" by (simp add: comma_not_space)
        with \<open>r \<noteq> []\<close> hd have "trim r = r" by (simp add: trim_id)
        moreover have "length (stripTrailingComma r) < length r"
          using \<open>r \<noteq> []\<close> lc by (rule stripTrailingComma_last_comma)
        ultimately show ?thesis
          unfolding normalizeFieldContent_def
          using length_collapseWhitespace[of "stripTrailingComma r"] by simp
      qed
      then have "normalizeFieldContent r \<noteq> r" by auto
      with True \<open>r \<noteq> []\<close> show ?thesis by auto
    qed
  qed
  then show ?thesis
    using normalizeFieldContent_spec[of x] by (simp add: r_def spec_normalize_def)
qed

theorem normalizeFieldContent_idempotent_iff_witness:
  "normalizeFieldContent ''  name   UTF8String,  '' = ''name UTF8String'' \<and>
   spec_collapse False (spec_stripComma (spec_trim ''  name   UTF8String,  '')) = ''name UTF8String'' \<and>
   normalizeFieldContent (normalizeFieldContent ''  name   UTF8String,  '') =
   normalizeFieldContent ''  name   UTF8String,  ''"
proof -
  have n: "normalizeFieldContent ''  name   UTF8String,  '' = ''name UTF8String''"
    by (simp add: normalizeFieldContent_def trim_def trimStart_def trimEnd_def is_space_def)
  then have "normalizeFieldContent ''  name   UTF8String,  '' = [] \<or>
    (last (normalizeFieldContent ''  name   UTF8String,  '') \<noteq> CHR '','' \<and>
     last (normalizeFieldContent ''  name   UTF8String,  '') \<noteq> CHR '' '')"
    by simp
  then have i: "normalizeFieldContent (normalizeFieldContent ''  name   UTF8String,  '') =
      normalizeFieldContent ''  name   UTF8String,  ''"
    by (rule iffD2 [OF conjunct2 [OF normalizeFieldContent_idempotent_iff]])
  have "spec_collapse False (spec_stripComma (spec_trim ''  name   UTF8String,  '')) =
      normalizeFieldContent ''  name   UTF8String,  ''"
    by (rule conjunct1 [OF normalizeFieldContent_idempotent_iff, symmetric])
  with n i show ?thesis by (simp only: simp_thms)
qed

section \<open>Properties of the bracket matcher\<close>

lemma brace_loop_found:
  "brace_loop prev i braceCount inStr rest = r \<Longrightarrow> r \<noteq> - 1 \<Longrightarrow>
   int i \<le> r \<and> r < int i + int (length rest) \<and> rest ! (nat r - i) = CHR ''}''"
proof (induction rest arbitrary: prev i braceCount inStr)
  case Nil
  then show ?case by simp
next
  case (Cons ch rest)
  from Cons.prems(1)
  have "(ch = CHR ''}'' \<and> r = int i) \<or> (\<exists>p bc ins. brace_loop p (i + 1) bc ins rest = r)"
    by (auto simp: Let_def split: if_splits)
  then show ?case
  proof
    assume "ch = CHR ''}'' \<and> r = int i"
    then show ?thesis by simp
  next
    assume "\<exists>p bc ins. brace_loop p (i + 1) bc ins rest = r"
    then obtain p bc ins where "brace_loop p (i + 1) bc ins rest = r" by blast
    from Cons.IH[OF this Cons.prems(2)]
    have *: "int (i + 1) \<le> r" "r < int (i + 1) + int (length rest)"
      "rest ! (nat r - (i + 1)) = CHR ''}''"
      by auto
    from *(1) have "nat r - i = Suc (nat r - (i + 1))" by linarith
    with * show ?thesis by simp
  qed
qed

lemma brace_loop_close_scan:
  "1 \<le> braceCount \<Longrightarrow>
   brace_loop prev i braceCount inStr rest =
     (case close_scan prev i braceCount inStr rest of Some j \<Rightarrow> int j | None \<Rightarrow> - 1)"
  by (induction rest arbitrary: prev i braceCount inStr) (auto simp: Let_def)

text \<open>
  Claim C6: at an opening brace, \<^const>\<open>findMatchingBrace\<close> is the scan of the
  specification (depth 1 after the opening brace, string flag toggled by each unescaped
  double quote, braces counted outside strings only): it returns the index at which the
  depth reaches 0, which holds a closing brace after the opening one, and -1 when the
  text ends first.
\<close>

theorem findMatchingBrace_refines_spec:
  assumes "openIndex < length code" and "code ! openIndex = CHR ''{''"
  shows "findMatchingBrace code openIndex =
           (case spec_findMatchingClose code openIndex of Some j \<Rightarrow> int j | None \<Rightarrow> - 1) \<and>
         (\<forall>j. spec_findMatchingClose code openIndex = Some j \<longrightarrow>
              openIndex < j \<and> j < length code \<and> code ! j = CHR ''}'')"
proof -
  have d: "drop openIndex code = CHR ''{'' # drop (openIndex + 1) code"
    using assms Cons_nth_drop_Suc[of openIndex code] by simp
  have "findMatchingBrace code openIndex =
          brace_loop (Some (CHR ''{'')) (openIndex + 1) 1 False (drop (openIndex + 1) code)"
    unfolding findMatchingBrace_def d by simp
  also have "\<dots> = (case spec_findMatchingClose code openIndex of Some j \<Rightarrow> int j | None \<Rightarrow> - 1)"
    unfolding spec_findMatchingClose_def assms(2)
    by (rule brace_loop_close_scan) simp
  finally have eq: "findMatchingBrace code openIndex =
      (case spec_findMatchingClose code openIndex of Some j \<Rightarrow> int j | None \<Rightarrow> - 1)" .
  have "openIndex < j \<and> j < length code \<and> code ! j = CHR ''}''"
    if "spec_findMatchingClose code openIndex = Some j" for j
  proof -
    from that eq have r: "findMatchingBrace code openIndex = int j" by simp
    then have "brace_loop (Some (CHR ''{'')) (openIndex + 1) 1 False (drop (openIndex + 1) code) = int j"
      unfolding findMatchingBrace_def d by simp
    from brace_loop_found[OF this]
    have "int (openIndex + 1) \<le> int j" "int j < int (openIndex + 1) + int (length (drop (openIndex + 1) code))"
      "drop (openIndex + 1) code ! (nat (int j) - (openIndex + 1)) = CHR ''}''"
      by auto
    then show ?thesis using assms(1) by (auto simp: nth_drop)
  qed
  with eq show ?thesis by blast
qed

theorem findMatchingBrace_refines_spec_witness:
  "findMatchingBrace (''x{a{b}'' @ [DQUOTE] @ ''}'' @ [DQUOTE] @ ''c}d'') 1 = 10 \<and>
   findMatchingBrace (''x{a{b}'' @ [DQUOTE] @ ''}c}d'') 1 = - 1"
proof -
  have a: "1 < length (''x{a{b}'' @ [DQUOTE] @ ''}'' @ [DQUOTE] @ ''c}d'')"
    and a': "1 < length (''x{a{b}'' @ [DQUOTE] @ ''}c}d'')"
    by simp_all
  have b: "(''x{a{b}'' @ [DQUOTE] @ ''}'' @ [DQUOTE] @ ''c}d'') ! 1 = CHR ''{''"
    and b': "(''x{a{b}'' @ [DQUOTE] @ ''}c}d'') ! 1 = CHR ''{''"
    by simp_all
  have c: "spec_findMatchingClose (''x{a{b}'' @ [DQUOTE] @ ''}'' @ [DQUOTE] @ ''c}d'') 1 = Some 10"
    and c': "spec_findMatchingClose (''x{a{b}'' @ [DQUOTE] @ ''}c}d'') 1 = None"
    by code_simp+
  from findMatchingBrace_refines_spec [OF a b] findMatchingBrace_refines_spec [OF a' b'] c c'
  show ?thesis by simp
qed

section \<open>Properties of the top-level splitter\<close>

lemma segmentsAt_nonempty: "segmentsAt seps s \<noteq> []"
  by (induction seps s rule: segmentsAt.induct) (auto split: list.splits)

lemma split_loop_segments:
  "parts (split_loop prev rest st) =
     parts st @ map normalizeFieldContent
       (butlast ((current st @
           hd (segmentsAt (topLevelCommas prev (brace st) (paren st) (bracket st) (inString st) rest) rest)) #
           tl (segmentsAt (topLevelCommas prev (brace st) (paren st) (bracket st) (inString st) rest) rest))) \<and>
   current (split_loop prev rest st) =
     last ((current st @
           hd (segmentsAt (topLevelCommas prev (brace st) (paren st) (bracket st) (inString st) rest) rest)) #
           tl (segmentsAt (topLevelCommas prev (brace st) (paren st) (bracket st) (inString st) rest) rest))"
proof (induction rest arbitrary: prev st)
  case Nil
  then show ?case by simp
next
  case (Cons ch rest)
  define inStr' where "inStr' = (if ch = DQUOTE \<and> prev \<noteq> Some BACKSLASH then \<not> inString st else inString st)"
  define b' where "b' = (if inStr' then brace st else if ch = CHR ''{'' then brace st + 1
     else if ch = CHR ''}'' then brace st - 1 else brace st)"
  define p' where "p' = (if inStr' then paren st else if ch = CHR ''('' then paren st + 1
     else if ch = CHR '')'' then paren st - 1 else paren st)"
  define k' where "k' = (if inStr' then bracket st else if ch = CHR ''['' then bracket st + 1
     else if ch = CHR '']'' then bracket st - 1 else bracket st)"
  define sep where "sep = (\<not> inStr' \<and> ch = CHR '','' \<and> brace st = 0 \<and> paren st = 0 \<and> bracket st = 0)"
  define st' where "st' = split_step prev ch st"
  define segsR where "segsR = segmentsAt (topLevelCommas (Some ch) b' p' k' inStr' rest) rest"
  have step: "inString st' = inStr'" "brace st' = b'" "paren st' = p'" "bracket st' = k'"
    "parts st' = (if sep then parts st @ [normalizeFieldContent (current st)] else parts st)"
    "current st' = (if sep then [] else current st @ [ch])"
    by (auto simp: st'_def split_step_def Let_def inStr'_def b'_def p'_def k'_def sep_def)
  have segs: "segmentsAt (topLevelCommas prev (brace st) (paren st) (bracket st) (inString st) (ch # rest)) (ch # rest)
     = (if sep then [] # segsR else (ch # hd segsR) # tl segsR)"
    using segmentsAt_nonempty[of "topLevelCommas (Some ch) b' p' k' inStr' rest" rest]
    by (simp add: Let_def inStr'_def[symmetric] b'_def[symmetric] p'_def[symmetric] k'_def[symmetric]
          sep_def[symmetric] segsR_def[symmetric] split: list.splits)
  have ne: "segsR \<noteq> []" unfolding segsR_def by (rule segmentsAt_nonempty)
  have ih: "parts (split_loop (Some ch) rest st') =
     parts st' @ map normalizeFieldContent (butlast ((current st' @ hd segsR) # tl segsR))"
    "current (split_loop (Some ch) rest st') = last ((current st' @ hd segsR) # tl segsR)"
    using Cons.IH[of "Some ch" st'] unfolding step segsR_def by auto
  show ?case
  proof (cases sep)
    case True
    with ih step ne show ?thesis
      unfolding split_loop.simps st'_def[symmetric] segs
      by (cases segsR) auto
  next
    case False
    with ih step ne show ?thesis
      unfolding split_loop.simps st'_def[symmetric] segs
      by (cases segsR) auto
  qed
qed

text \<open>
  Claim C5, as stated, fails: a segment before a top-level comma is kept when it is
  empty, so the result can begin with an empty segment (and can end with one).
\<close>

theorem splitTopLevelByComma_leading_empty:
  "splitTopLevelByComma '',a'' = [[], ''a''] \<and> splitTopLevelByComma ''a,,'' = [''a'', []]"
  by code_simp

text \<open>
  Claim C5, amended: the splitter cuts its input exactly at the commas that are outside
  string literals and at which the brace, parenthesis and bracket counters are 0, passes
  every segment it returns through the field normalizer, and drops only the last
  segment, when that one is blank; empty segments before a comma are kept.
\<close>

theorem splitTopLevelByComma_segments:
  "splitTopLevelByComma input =
     map normalizeFieldContent
       (dropBlankLast (segmentsAt (topLevelCommas None 0 0 0 False input) input))"
proof -
  define segs where "segs = segmentsAt (topLevelCommas None 0 0 0 False input) input"
  have ne: "segs \<noteq> []" unfolding segs_def by (rule segmentsAt_nonempty)
  have "parts (split_loop None input split_init) = map normalizeFieldContent (butlast segs)"
    "current (split_loop None input split_init) = last segs"
    using split_loop_segments[of None input split_init] ne
    by (simp_all add: split_init_def segs_def[symmetric])
  then show ?thesis
    unfolding splitTopLevelByComma_def segs_def[symmetric] dropBlankLast_def Let_def
    using ne by (simp add: map_butlast[symmetric] last_map snoc_eq_iff_butlast)
qed

theorem splitTopLevelByComma_segments_witness:
  "splitTopLevelByComma ''a  (b, c),, d {e, f}, '' = [''a (b, c)'', [], ''d {e, f}'']"
proof -
  have "map normalizeFieldContent
          (dropBlankLast (segmentsAt (topLevelCommas None 0 0 0 False ''a  (b, c),, d {e, f}, '')
             ''a  (b, c),, d {e, f}, '')) = [''a (b, c)'', [], ''d {e, f}'']"
    by code_simp
  then show ?thesis
    by (simp only: splitTopLevelByComma_segments)
qed

section \<open>Properties of the fallback indenter\<close>

lemma concat_replicate_replicate: "concat (replicate n (replicate w c)) = replicate (n * w) c"
  by (induction n) (simp_all add: replicate_add)

lemma fallback_loop_lineDepths:
  "fallback_loop (replicate w CHR '' '') depth lines =
     map2 (\<lambda>d t. replicate (nat d * w) CHR '' '' @ t)
       (lineDepths depth (filter (\<lambda>l. l \<noteq> []) (map trim lines)))
       (filter (\<lambda>l. l \<noteq> []) (map trim lines))"
proof (induction lines arbitrary: depth)
  case Nil
  then show ?case by simp
next
  case (Cons l ls)
  show ?case
  proof (cases "trim l = []")
    case True
    with Cons show ?thesis by simp
  next
    case False
    have "startsWith ''}'' ''}''" by (simp add: startsWith_def)
    then have eq: "(trim l = ''}'' \<or> startsWith (trim l) ''}'') = startsWith (trim l) ''}''"
      by auto
    from False show ?thesis
      by (simp add: Let_def Cons.IH eq concat_replicate_replicate)
  qed
qed

lemma splitOn_nonempty: "splitOn c s \<noteq> []"
  by (induction s) (auto split: list.splits)

lemma splitOn_pieces: "l \<in> set (splitOn c s) \<Longrightarrow> c \<notin> set l"
proof (induction s arbitrary: l)
  case Nil
  then show ?case by simp
next
  case (Cons x xs)
  show ?case
  proof (cases "x = c")
    case True
    with Cons show ?thesis by auto
  next
    case False
    obtain p ps where ps: "splitOn c xs = p # ps"
      using splitOn_nonempty[of c xs] by (cases "splitOn c xs") auto
    with Cons.prems False have "l = x # p \<or> l \<in> set ps" by simp
    then show ?thesis
    proof
      assume "l = x # p"
      moreover have "c \<notin> set p" using Cons.IH[of p] ps by simp
      ultimately show ?thesis using False by simp
    next
      assume "l \<in> set ps"
      then show ?thesis using Cons.IH[of l] ps by simp
    qed
  qed
qed

lemma splitOn_append_sep:
  "c \<notin> set l \<Longrightarrow> splitOn c (l @ c # s) = l # splitOn c s"
  by (induction l) auto

lemma splitOn_no_sep: "c \<notin> set l \<Longrightarrow> splitOn c l = [l]"
  by (induction l) auto

lemma splitOn_join:
  "ls \<noteq> [] \<Longrightarrow> \<forall>l\<in>set ls. c \<notin> set l \<Longrightarrow> splitOn c (join [c] ls) = ls"
proof (induction ls)
  case Nil
  then show ?case by simp
next
  case (Cons x xs)
  show ?case
  proof (cases xs)
    case Nil
    with Cons.prems show ?thesis by (simp add: splitOn_no_sep)
  next
    case (Cons y ys)
    with Cons.prems Cons.IH show ?thesis by (simp add: splitOn_append_sep)
  qed
qed

lemma set_trim: "set (trim s) \<subseteq> set s"
proof -
  have "set (trim s) \<subseteq> set (trimEnd s)"
    unfolding trim_def trimStart_def by (rule set_dropWhileD[THEN subsetI]) 
  also have "\<dots> \<subseteq> set s"
    unfolding trimEnd_def using set_dropWhileD[of _ is_space "rev s"] by auto
  finally show ?thesis .
qed

lemma trim_ends:
  assumes "trim s \<noteq> []"
  shows "\<not> is_space (hd (trim s))" and "\<not> is_space (last (trim s))"
proof -
  show "\<not> is_space (hd (trim s))"
    using assms unfolding trim_def trimStart_def by (metis hd_dropWhile)
  have ne: "trimEnd s \<noteq> []" using assms by (auto simp: trim_def trimStart_def)
  then have "dropWhile is_space (rev s) \<noteq> []" by (simp add: trimEnd_def)
  then have "\<not> is_space (hd (dropWhile is_space (rev s)))" by (rule hd_dropWhile)
  then have l: "\<not> is_space (last (trimEnd s))"
    using ne by (simp add: trimEnd_def last_rev)
  have "last (dropWhile is_space (trimEnd s)) = last (trimEnd s)"
    using assms unfolding trim_def trimStart_def
    by (metis append_Nil2 last_appendR takeWhile_dropWhile_id)
  with l show "\<not> is_space (last (trim s))" by (simp add: trim_def trimStart_def)
qed

lemma trim_indented:
  assumes "t \<noteq> []" "\<not> is_space (hd t)" "\<not> is_space (last t)"
  shows "trim (replicate n CHR '' '' @ t) = t"
proof -
  have "trimEnd (replicate n CHR '' '' @ t) = replicate n CHR '' '' @ t"
    using assms by (intro trimEnd_id) auto
  moreover have "dropWhile is_space (replicate n CHR '' '' @ t) = t"
    using assms by (cases t) (auto simp: dropWhile_append3 is_space_def dropWhile_append)
  ultimately show ?thesis by (simp add: trim_def trimStart_def)
qed

text \<open>
  Claim C4, as stated, fails twice.  The fallback indenter skips blank lines, so the line
  count of the input is not preserved.  And its depth is not the depth of the
  specification: after a line that closes one brace and opens another, the specification
  counts an unmatched opening brace and indents the next line, the indenter does not.
\<close>

theorem fallbackFormat_line_count_and_depth:
  "length (splitOn NL (fallbackFormat \<lparr>indentSize = 2, maxLineLength = 80, autoWrapLongLines = True\<rparr>
      (''a'' @ [NL, NL] @ ''b''))) = 2 \<and>
   length (splitOn NL (''a'' @ [NL, NL] @ ''b'')) = 3 \<and>
   fallbackFormat \<lparr>indentSize = 2, maxLineLength = 80, autoWrapLongLines = True\<rparr>
      (''a {'' @ [NL] @ ''} y {'' @ [NL] @ ''z'') = ''a {'' @ [NL] @ ''} y {'' @ [NL] @ ''z'' \<and>
   spec_lineDepths 0 [''a {'', ''} y {'', ''z''] = [0, 0, 1]"
  by code_simp

lemma open_braces_le: "CHR ''{'' \<notin> set t \<Longrightarrow> open_braces n t \<le> n"
proof (induction t arbitrary: n)
  case Nil
  show ?case by simp
next
  case (Cons c t)
  then have "open_braces (n - 1) t \<le> n - 1" "open_braces n t \<le> n" by simp_all
  with Cons.prems show ?case by auto
qed

lemma open_braces_ge: "CHR ''}'' \<notin> set t \<Longrightarrow> n \<le> open_braces n t"
proof (induction t arbitrary: n)
  case Nil
  show ?case by simp
next
  case (Cons c t)
  then have "n + 1 \<le> open_braces (n + 1) t" "n \<le> open_braces n t" by simp_all
  with Cons.prems show ?case by auto
qed

lemma open_braces_gt:
  "CHR ''}'' \<notin> set t \<Longrightarrow> CHR ''{'' \<in> set t \<Longrightarrow> n < open_braces n t"
proof (induction t arbitrary: n)
  case Nil
  then show ?case by simp
next
  case (Cons c t)
  show ?case
  proof (cases "c = CHR ''{''")
    case True
    from Cons.prems(1) have "n + 1 \<le> open_braces (n + 1) t" by (intro open_braces_ge) simp
    with True show ?thesis by simp
  next
    case False
    with Cons show ?thesis by auto
  qed
qed

lemma lineDepths_spec:
  "\<forall>t\<in>set ts. \<not> (CHR ''{'' \<in> set t \<and> CHR ''}'' \<in> set t) \<Longrightarrow>
   lineDepths d ts = spec_lineDepths d ts"
proof (induction ts arbitrary: d)
  case Nil
  show ?case by simp
next
  case (Cons t ts)
  have "(0 < open_braces 0 t) = (CHR ''{'' \<in> set t \<and> CHR ''}'' \<notin> set t)"
  proof (cases "CHR ''{'' \<in> set t")
    case True
    with Cons.prems have "CHR ''}'' \<notin> set t" by simp
    with True open_braces_gt[of t 0] show ?thesis by simp
  next
    case False
    with open_braces_le[of t 0] show ?thesis by simp
  qed
  with Cons show ?case by (simp add: Let_def)
qed

text \<open>
  Claim C4, amended: the fallback indenter drops the blank lines and writes every other
  line, trimmed, after depth \<open>\<times>\<close> indentSize spaces, where the depth is one less (not
  below 0) at a line that starts with a closing brace and one more after a line with an
  opening and no closing brace; this is the depth of the specification whenever no line
  holds both an opening and a closing brace.  It splits no line, reorders nothing and
  inserts no blank line, so the lines of its output, trimmed, are the non-blank lines of
  the input, trimmed, in the same order and number.
\<close>

theorem fallbackFormat_reindents:
  "fallbackFormat st code =
     join [NL] (map2 (\<lambda>d t. replicate (nat d * indentSize st) CHR '' '' @ t)
                  (lineDepths 0 (keptLines code)) (keptLines code)) \<and>
   (keptLines code \<noteq> [] \<longrightarrow> map trim (splitOn NL (fallbackFormat st code)) = keptLines code) \<and>
   ((\<forall>t\<in>set (keptLines code). \<not> (CHR ''{'' \<in> set t \<and> CHR ''}'' \<in> set t)) \<longrightarrow>
      lineDepths 0 (keptLines code) = spec_lineDepths 0 (keptLines code))"
proof -
  define out where "out = map2 (\<lambda>d t. replicate (nat d * indentSize st) CHR '' '' @ t)
                  (lineDepths 0 (keptLines code)) (keptLines code)"
  have len: "length (lineDepths d ts) = length ts" for d ts
    by (induction ts arbitrary: d) (auto simp: Let_def)
  have eq: "fallbackFormat st code = join [NL] out"
    by (simp add: fallbackFormat_def fallback_loop_lineDepths out_def keptLines_def)
  have kept: "t \<noteq> [] \<and> NL \<notin> set t \<and> \<not> is_space (hd t) \<and> \<not> is_space (last t)"
    if "t \<in> set (keptLines code)" for t
  proof -
    from that obtain l where l: "l \<in> set (splitOn NL code)" "t = trim l" "trim l \<noteq> []"
      by (auto simp: keptLines_def)
    from splitOn_pieces[OF l(1)] set_trim[of l] have "NL \<notin> set t" using l(2) by auto
    with l trim_ends[of l] show ?thesis by simp
  qed
  have "map trim (splitOn NL (fallbackFormat st code)) = keptLines code" if ne: "keptLines code \<noteq> []"
  proof -
    have "out \<noteq> []" using ne len[of 0 "keptLines code"] by (auto simp: out_def)
    moreover have "\<forall>l\<in>set out. NL \<notin> set l"
      using kept by (auto simp: out_def dest!: set_zip_rightD)
    ultimately have "splitOn NL (join [NL] out) = out" by (rule splitOn_join)
    moreover have "map trim out = keptLines code"
      unfolding out_def
      by (rule nth_equalityI) (auto simp: len trim_indented kept)
    ultimately show ?thesis using eq by simp
  qed
  with eq lineDepths_spec[of "keptLines code" 0] show ?thesis by (simp add: out_def)
qed

theorem fallbackFormat_reindents_witness:
  "map trim (splitOn NL (fallbackFormat \<lparr>indentSize = 4, maxLineLength = 80, autoWrapLongLines = True\<rparr>
      (''a {'' @ [NL, NL] @ ''  b,'' @ [NL] @ ''c'' @ [NL] @ ''}''))) = [''a {'', ''b,'', ''c'', ''}''] \<and>
   lineDepths 0 [''a {'', ''b,'', ''c'', ''}''] = spec_lineDepths 0 [''a {'', ''b,'', ''c'', ''}'']"
proof -
  have k: "keptLines (''a {'' @ [NL, NL] @ ''  b,'' @ [NL] @ ''c'' @ [NL] @ ''}'') =
      [''a {'', ''b,'', ''c'', ''}'']"
    by code_simp
  note t = fallbackFormat_reindents
    [of "\<lparr>indentSize = 4, maxLineLength = 80, autoWrapLongLines = True\<rparr>"
        "''a {'' @ [NL, NL] @ ''  b,'' @ [NL] @ ''c'' @ [NL] @ ''}''"]
  have a: "map trim (splitOn NL (fallbackFormat \<lparr>indentSize = 4, maxLineLength = 80, autoWrapLongLines = True\<rparr>
      (''a {'' @ [NL, NL] @ ''  b,'' @ [NL] @ ''c'' @ [NL] @ ''}''))) = [''a {'', ''b,'', ''c'', ''}'']"
    using conjunct1 [OF conjunct2 [OF t]] unfolding k by simp
  have "\<forall>t\<in>set [''a {'', ''b,'', ''c'', ''}'']. \<not> (CHR ''{'' \<in> set t \<and> CHR ''}'' \<in> set t)"
    by simp
  with conjunct2 [OF conjunct2 [OF t]]
  have b: "lineDepths 0 [''a {'', ''b,'', ''c'', ''}''] = spec_lineDepths 0 [''a {'', ''b,'', ''c'', ''}'']"
    unfolding k by blast
  from a b show ?thesis by blast
qed

section \<open>The formatter on the examples of the specification\<close>

lemma formatASN1Code_settings_irrelevant: "formatASN1Code st code = formatASN1Code st' code"
  by (simp add: formatASN1Code_def simpleFormatASN1_def)

text \<open>
  Claim C3: with indentSize 4 the fields of the example should be indented by four
  spaces.  The formatter indents them by two: it never reads the setting.
\<close>

theorem formatASN1Code_indent4_example:
  "formatASN1Code \<lparr>indentSize = 4, maxLineLength = 80, autoWrapLongLines = True\<rparr>
     (''Person ::= SEQUENCE {'' @ [NL] @ ''name UTF8String,'' @ [NL] @ ''age INTEGER'' @ [NL] @ ''}'')
   = ''Person ::= SEQUENCE {'' @ [NL] @ ''  name UTF8String,'' @ [NL] @ ''  age INTEGER'' @ [NL] @ ''}''"
  by code_simp

text \<open>
  Claim C9: the output for \<open>Person::=SEQUENCE{name UTF8String}\<close> should contain the
  operator with one space on each side.  The formatter leaves the header as it is.
\<close>

theorem formatASN1Code_operator_example:
  "formatASN1Code st ''Person::=SEQUENCE{name UTF8String}'' =
     ''Person::=SEQUENCE{'' @ [NL] @ ''  name UTF8String'' @ [NL] @ ''}'' \<and>
   \<not> includes_str (formatASN1Code st ''Person::=SEQUENCE{name UTF8String}'') '' ::= ''"
  by code_simp

section \<open>Substrings\<close>

lemma includes_str_iff: "includes_str s p \<longleftrightarrow> (\<exists>xs ys. s = xs @ p @ ys)"
proof (induction s)
  case Nil
  then show ?case by auto
next
  case (Cons c cs)
  show ?case
  proof
    assume "includes_str (c # cs) p"
    then have "take (length p) (c # cs) = p \<or> includes_str cs p" by simp
    then show "\<exists>xs ys. c # cs = xs @ p @ ys"
    proof
      assume "take (length p) (c # cs) = p"
      then have "c # cs = [] @ p @ drop (length p) (c # cs)"
        by (metis append_Nil append_take_drop_id)
      then show ?thesis by blast
    next
      assume "includes_str cs p"
      with Cons.IH obtain xs ys where "cs = xs @ p @ ys" by blast
      then have "c # cs = (c # xs) @ p @ ys" by simp
      then show ?thesis by blast
    qed
  next
    assume "\<exists>xs ys. c # cs = xs @ p @ ys"
    then obtain xs ys where e: "c # cs = xs @ p @ ys" by blast
    show "includes_str (c # cs) p"
    proof (cases xs)
      case Nil
      with e have "take (length p) (c # cs) = p" by simp
      then show ?thesis by simp
    next
      case (Cons x xs')
      with e have "cs = xs' @ p @ ys" by simp
      with Cons.IH show ?thesis by auto
    qed
  qed
qed

lemma includes_str_infix: "includes_str s p \<Longrightarrow> includes_str (a @ s @ b) p"
  unfolding includes_str_iff by (metis append.assoc)

lemma includes_str_drop: "includes_str (drop n s) p \<Longrightarrow> includes_str s p"
  using includes_str_infix[of "drop n s" p "take n s" "[]"] by simp

lemma includes_str_dropWhile: "includes_str (dropWhile P s) p \<Longrightarrow> includes_str s p"
  using includes_str_infix[of "dropWhile P s" p "takeWhile P s" "[]"] by simp

lemma includes_str_Cons: "includes_str s p \<Longrightarrow> includes_str (c # s) p"
  by simp

lemma includes_str_take: "take (length p) s = p \<Longrightarrow> includes_str s p"
  by (cases s) auto

lemma includes_str_length: "includes_str s p \<Longrightarrow> length p \<le> length s"
  unfolding includes_str_iff by auto

lemma includes_str_split:
  "c \<notin> set p \<Longrightarrow> p \<noteq> [] \<Longrightarrow>
   includes_str (a @ c # b) p = (includes_str a p \<or> includes_str b p)"
proof (induction a)
  case Nil
  have "take (length p) (c # b) \<noteq> p"
  proof
    assume "take (length p) (c # b) = p"
    with Nil(2) have "c \<in> set p" by (cases p) auto
    with Nil(1) show False by simp
  qed
  with Nil show ?case by simp
next
  case (Cons x a)
  have "(take (length p) (x # a @ c # b) = p) = (take (length p) (x # a) = p)"
  proof (cases "length p \<le> length (x # a)")
    case True
    then show ?thesis using take_append[of "length p" "x # a" "c # b"] by simp
  next
    case False
    then obtain k where k: "length p = Suc (length a) + Suc k"
      by (metis add_Suc_right less_imp_Suc_add not_le length_Cons)
    have "take (Suc (length a) + Suc k) ((x # a) @ c # b) = (x # a) @ c # take k b"
      by (simp del: append_Cons)
    then have "c \<in> set (take (length p) (x # a @ c # b))"
      unfolding k by simp
    with Cons.prems(1) have "take (length p) (x # a @ c # b) \<noteq> p" by auto
    moreover from False have "length (take (length p) (x # a)) < length p" by simp
    then have "take (length p) (x # a) \<noteq> p" by (metis less_irrefl)
    ultimately show ?thesis by simp
  qed
  with Cons show ?case by simp
qed

lemma trim_infix: "\<exists>a b. s = a @ trim s @ b"
proof -
  have "trimEnd s @ rev (takeWhile is_space (rev s)) = s"
    unfolding trimEnd_def by (metis rev_append rev_rev_ident takeWhile_dropWhile_id)
  moreover have "takeWhile is_space (trimEnd s) @ trim s = trimEnd s"
    unfolding trim_def trimStart_def by simp
  ultimately have "s = takeWhile is_space (trimEnd s) @ trim s @ rev (takeWhile is_space (rev s))"
    by (metis append.assoc)
  then show ?thesis by blast
qed

lemma includes_str_trim: "includes_str (trim s) p \<Longrightarrow> includes_str s p"
  using trim_infix[of s] includes_str_infix[of "trim s" p] by metis

section \<open>Properties of the matchers\<close>

lemma match_assign_Some:
  assumes "match_assign s = Some n"
  shows "0 < n" and "n \<le> length s" and "includes_str s ''::=''" and "is_word (hd s)"
    and "take 3 (drop (n - 3) s) = ''::=''" and "3 < n"
proof -
  define w where "w = length (takeWhile is_word s)"
  define sp where "sp = length (takeWhile is_space (drop w s))"
  from assms have *: "0 < w" "take 3 (drop (w + sp) s) = ''::=''" "n = w + sp + 3"
    by (auto simp: match_assign_def Let_def w_def[symmetric] sp_def[symmetric] split: if_splits)
  from * show "0 < n" "3 < n" by simp_all
  from *(2) have "length (take 3 (drop (w + sp) s)) = 3" by simp
  then have "3 \<le> length s - (w + sp)" by simp
  with * show "n \<le> length s" by simp
  from *(2) have "includes_str (drop (w + sp) s) ''::=''"
    by (intro includes_str_take) (simp add: numeral_3_eq_3)
  then show "includes_str s ''::=''" by (rule includes_str_drop)
  from *(1) have "takeWhile is_word s \<noteq> []" by (simp add: w_def)
  then show "is_word (hd s)" by (cases s) (auto split: if_splits)
  from * show "take 3 (drop (n - 3) s) = ''::=''" by simp
qed

lemma match_typedef_start_Some:
  assumes "match_typedef_start s = Some n"
  shows "0 < n" and "n \<le> length s" and "includes_str s ''::=''" and "is_word (hd s)"
    and "s ! (n - 1) = CHR ''{''" and "s \<noteq> []"
proof -
  from assms obtain a where a: "match_assign s = Some a"
    by (auto simp: match_typedef_start_def split: option.splits)
  define sp where "sp = length (takeWhile is_space (drop a s))"
  from assms a obtain k where k: "match_keyword (drop (a + sp) s) = Some k"
    by (auto simp: match_typedef_start_def Let_def sp_def[symmetric] split: option.splits)
  define sp2 where "sp2 = length (takeWhile is_space (drop (a + sp + k) s))"
  from assms a k have *: "take 1 (drop (a + sp + k + sp2) s) = ''{''" "n = a + sp + k + sp2 + 1"
    by (auto simp: match_typedef_start_def Let_def sp_def[symmetric] sp2_def[symmetric]
        split: option.splits if_splits)
  from * show "0 < n" by simp
  from *(1) have d: "drop (a + sp + k + sp2) s \<noteq> []" by auto
  then have lt: "a + sp + k + sp2 < length s" by simp
  with * show "n \<le> length s" by simp
  from match_assign_Some[OF a] show "includes_str s ''::=''" "is_word (hd s)" by simp_all
  from *(1) d have "hd (drop (a + sp + k + sp2) s) = CHR ''{''"
    by (cases "drop (a + sp + k + sp2) s") auto
  with lt * show "s ! (n - 1) = CHR ''{''" by (simp add: hd_drop_conv_nth)
  from lt show "s \<noteq> []" by auto
qed

lemma separateDefinitions_no_assign:
  "\<not> includes_str s ''::='' \<Longrightarrow> separateDefinitions s = s"
proof (induction s rule: separateDefinitions.induct)
  case 1
  then show ?case by simp
next
  case (2 c cs)
  from "2.prems" have nc: "\<not> includes_str cs ''::=''" by auto
  have "match_assign (dropWhile is_space cs) = None"
  proof (rule ccontr)
    assume "match_assign (dropWhile is_space cs) \<noteq> None"
    then obtain n where "match_assign (dropWhile is_space cs) = Some n" by auto
    from match_assign_Some(3)[OF this] have "includes_str cs ''::=''"
      by (rule includes_str_dropWhile)
    with nc show False by simp
  qed
  with 2 nc show ?case by simp
qed

lemma collectMatches_no_assign:
  "\<not> includes_str rest ''::='' \<Longrightarrow> collectMatches code i rest = []"
proof (induction rest arbitrary: i)
  case Nil
  then show ?case by simp
next
  case (Cons c cs)
  have "match_typedef_start (c # cs) = None"
  proof (rule ccontr)
    assume "match_typedef_start (c # cs) \<noteq> None"
    then obtain n where "match_typedef_start (c # cs) = Some n" by auto
    from match_typedef_start_Some(3)[OF this] Cons.prems show False by simp
  qed
  moreover from Cons.prems have "\<not> includes_str cs ''::=''" by auto
  ultimately show ?case using Cons.IH by simp
qed

text \<open>
  Claim C10: on a non-blank input without the operator \<open>::=\<close> the formatter only
  cleans up the spacing: the output is the trimmed input with every run of three or more
  line feeds collapsed to three, leading line feeds removed and trailing line feeds
  collapsed to one.
\<close>

theorem formatASN1Code_without_assignment:
  assumes "trim code \<noteq> []" and "\<not> includes_str code ''::=''"
  shows "formatASN1Code st code = cleanupSpacing (trim code)"
proof -
  from assms(2) have n: "\<not> includes_str (trim code) ''::=''"
    using includes_str_trim by blast
  then have "separateDefinitions (trim code) = trim code"
    by (rule separateDefinitions_no_assign)
  moreover from n have "collectMatches (trim code) 0 (trim code) = []"
    by (rule collectMatches_no_assign)
  ultimately show ?thesis using assms(1)
    by (simp add: formatASN1Code_def simpleFormatASN1_def formatTypeDefinitionsWithNestedBraces_def)
qed

theorem formatASN1Code_without_assignment_witness:
  "formatASN1Code DEFAULT_SETTINGS ([NL] @ '' -- a note'' @ [NL, NL, NL, NL, NL] @ ''x  INTEGER '' @ [NL]) =
     ''-- a note'' @ [NL, NL, NL] @ ''x  INTEGER''"
proof -
  have a: "trim ([NL] @ '' -- a note'' @ [NL, NL, NL, NL, NL] @ ''x  INTEGER '' @ [NL]) \<noteq> []"
    by code_simp
  have b: "\<not> includes_str ([NL] @ '' -- a note'' @ [NL, NL, NL, NL, NL] @ ''x  INTEGER '' @ [NL]) ''::=''"
    by code_simp
  have c: "cleanupSpacing (trim ([NL] @ '' -- a note'' @ [NL, NL, NL, NL, NL] @ ''x  INTEGER '' @ [NL])) =
     ''-- a note'' @ [NL, NL, NL] @ ''x  INTEGER''"
    by code_simp
  show ?thesis
    unfolding formatASN1Code_without_assignment [OF a b] by (rule c)
qed

section \<open>The shape of the formatter's output\<close>

lemma is_word_not_space: "is_word c \<Longrightarrow> \<not> is_space c"
  by (auto simp: is_word_def is_space_def)

lemma brace_not_space: "\<not> is_space (CHR ''}'')" "\<not> is_space (CHR ''{'')"
  by (simp_all add: is_space_def)

lemma last_dropWhile: "dropWhile P xs \<noteq> [] \<Longrightarrow> last (dropWhile P xs) = last xs"
  by (metis last_appendR takeWhile_dropWhile_id)

lemma last_drop': "drop n xs \<noteq> [] \<Longrightarrow> last (drop n xs) = last xs"
  by (metis append_take_drop_id last_appendR)

lemma separateDefinitions_ends:
  "s \<noteq> [] \<Longrightarrow> separateDefinitions s \<noteq> [] \<and> hd (separateDefinitions s) = hd s \<and>
     last (separateDefinitions s) = last s"
proof (induction s rule: separateDefinitions.induct)
  case 1
  then show ?case by simp
next
  case (2 c cs)
  show ?case
  proof (cases "c = CHR ''}'' \<and> match_assign (dropWhile is_space cs) \<noteq> None")
    case True
    then obtain n where n: "match_assign (dropWhile is_space cs) = Some n" by auto
    define r where "r = dropWhile is_space cs"
    from match_assign_Some[OF n] have n0: "0 < n" "n \<le> length r" by (simp_all add: r_def)
    then have rne: "r \<noteq> []" by auto
    then have lr: "last r = last cs" "cs \<noteq> []" unfolding r_def by (auto simp: last_dropWhile)
    have out: "separateDefinitions (c # cs) =
        ''}'' @ [NL, NL, NL] @ take n r @ separateDefinitions (drop n r)"
      using True n by (simp add: r_def)
    have "last (take n r @ separateDefinitions (drop n r)) = last r"
    proof (cases "drop n r = []")
      case True
      then have "take n r = r" by simp
      with True rne show ?thesis by simp
    next
      case False
      from "2.IH"(2)[OF _ n False[unfolded r_def]] True
      have "separateDefinitions (drop n r) \<noteq> []" "last (separateDefinitions (drop n r)) = last (drop n r)"
        by (simp_all add: r_def)
      with False show ?thesis by (simp add: last_drop')
    qed
    moreover have "take n r @ separateDefinitions (drop n r) \<noteq> []" using n0 rne by auto
    ultimately have "last (''}'' @ [NL, NL, NL] @ take n r @ separateDefinitions (drop n r)) = last r"
      by (simp only: last_appendR append_is_Nil_conv not_False_eq_True simp_thms)
    then show ?thesis using True lr unfolding out by simp
  next
    case False
    then have out: "separateDefinitions (c # cs) = c # separateDefinitions cs"
      by (auto split: option.splits)
    show ?thesis
    proof (cases "cs = []")
      case True
      with out show ?thesis by simp
    next
      case ne: False
      from False have "separateDefinitions cs \<noteq> [] \<and> last (separateDefinitions cs) = last cs"
      proof (cases "c = CHR ''}''")
        case True
        with False have "match_assign (dropWhile is_space cs) = None" by simp
        from "2.IH"(1)[OF True this ne] show ?thesis by simp
      next
        case False
        from "2.IH"(3)[OF False ne] show ?thesis by simp
      qed
      with ne show ?thesis unfolding out by simp
    qed
  qed
qed

lemma separateDefinitions_tight: "tight s \<Longrightarrow> tight (separateDefinitions s)"
  unfolding tight_def using separateDefinitions_ends[of s] by auto


lemma findMatchingBrace_found:
  assumes "findMatchingBrace code pos = r" and "r \<noteq> - 1"
  shows "int pos \<le> r" and "nat r < length code" and "code ! nat r = CHR ''}''"
proof -
  from brace_loop_found[OF assms[unfolded findMatchingBrace_def]]
  have *: "int pos \<le> r" "r < int pos + int (length (drop pos code))"
    "drop pos code ! (nat r - pos) = CHR ''}''" by auto
  from *(1) show "int pos \<le> r" .
  from *(1,2) have lt: "pos < length code" by (cases "pos < length code") auto
  with *(1,2) show l: "nat r < length code" by auto
  from *(1) lt have "pos + (nat r - pos) = nat r" by linarith
  with *(3) lt show "code ! nat r = CHR ''}''" by (simp add: nth_drop)
qed

lemma collectMatches_good:
  "rest = drop i code \<Longrightarrow> m \<in> set (collectMatches code i rest) \<Longrightarrow> good_match code m"
proof (induction code i rest rule: collectMatches.induct)
  case (1 code i)
  then show ?case by simp
next
  case (2 code i c cs)
  show ?case
  proof (cases "match_typedef_start (c # cs)")
    case None
    from "2.prems"(1) have "cs = drop (i + 1) code"
      by (metis drop_Suc tl_drop list.sel(3) Suc_eq_plus1)
    with "2.IH"(1)[OF None this] "2.prems"(2) None show ?thesis by simp
  next
    case (Some n)
    note ms = match_typedef_start_Some[OF Some]
    define e where "e = findMatchingBrace code (i + n - 1)"
    from "2.prems"(1) have i: "i < length code" by (metis drop_eq_Nil list.distinct(1) not_le)
    have ci: "code ! i = c" using "2.prems"(1) i by (metis hd_drop_conv_nth list.sel(1))
    from "2.prems"(2) Some
    have "(e \<noteq> - 1 \<and> m = \<lparr>startPos = i, endPos = nat e, prefix = take n (c # cs)\<rparr>) \<or>
          m \<in> set (collectMatches code (i + n) (drop n (c # cs)))"
      unfolding e_def by (auto simp: Let_def split: if_splits)
    then show ?thesis
    proof
      assume a: "e \<noteq> - 1 \<and> m = \<lparr>startPos = i, endPos = nat e, prefix = take n (c # cs)\<rparr>"
      from findMatchingBrace_found[OF e_def[symmetric]] a
      have f: "int (i + n - 1) \<le> e" "nat e < length code" "code ! nat e = CHR ''}''" by auto
      have brace: "code ! (i + n - 1) = CHR ''{''"
      proof -
        have "(c # cs) ! (n - 1) = code ! (i + (n - 1))"
          unfolding "2.prems"(1) using nth_drop[of i code "n - 1"] i by simp
        with ms(5) ms(1) show ?thesis by (simp add: add.commute)
      qed
      have "nat e \<noteq> i + n - 1" using brace f(3) by auto
      with f(1) ms(1) have lt: "i < nat e" by linarith
      have "last (take n (c # cs)) = (c # cs) ! (n - 1)"
        using ms(1,2) by (simp add: last_conv_nth min_def)
      with ms brace have "last (take n (c # cs)) = CHR ''{''" by simp
      moreover have "take n (c # cs) \<noteq> []" "hd (take n (c # cs)) = c" using ms(1) by (auto simp: take_Cons')
      moreover have "is_word c" using ms(4) by simp
      ultimately show ?thesis using a f lt ci by (simp add: good_match_def)
    next
      assume "m \<in> set (collectMatches code (i + n) (drop n (c # cs)))"
      moreover have "drop n (c # cs) = drop (i + n) code"
        unfolding "2.prems"(1) by (simp add: add.commute)
      ultimately show ?thesis using "2.IH"(2)[OF Some refl] by (simp add: e_def)
    qed
  qed
qed


lemma join_last: "y \<noteq> [] \<Longrightarrow> join sep (xs @ [y]) \<noteq> [] \<and> last (join sep (xs @ [y])) = last y"
proof (induction xs)
  case Nil
  then show ?case by simp
next
  case (Cons x xs)
  obtain z zs where z: "xs @ [y] = z # zs" by (cases "xs @ [y]") auto
  with Cons show ?case by simp
qed

lemma join_hd: "x \<noteq> [] \<Longrightarrow> join sep (x # xs) \<noteq> [] \<and> hd (join sep (x # xs)) = hd x"
  by (cases xs) auto

lemma formatSingleTypeDefinition_tight:
  assumes "tight original" and "last original = CHR ''}''"
    and "pre \<noteq> []" and "\<not> is_space (hd pre)" and "last pre = CHR ''{''"
  shows "tight (formatSingleTypeDefinition original pre)"
proof -
  have t: "trimEnd pre = pre" using assms(3,5) by (simp add: trimEnd_id brace_not_space)
  have j: "tight (join [NL] ([pre] @ mid @ [''}'']))" for mid
  proof -
    have "join [NL] ((pre # mid) @ [''}'']) \<noteq> [] \<and> last (join [NL] ((pre # mid) @ [''}''])) = last ''}''"
      by (rule join_last) simp
    moreover have "hd (join [NL] (pre # mid @ [''}''])) = hd pre"
      using join_hd[OF assms(3)] by blast
    ultimately show ?thesis using assms(4) by (simp add: tight_def brace_not_space)
  qed
  have a: "tight (pre @ [NL] @ ''}'')" using assms(3,4) by (simp add: tight_def brace_not_space)
  have b: "tight (pre @ [NL] @ ''  '' @ x @ [NL] @ ''}'')" for x
    using assms(3,4) by (simp add: tight_def brace_not_space)
  show ?thesis
    unfolding formatSingleTypeDefinition_def Let_def t
    using assms(1) a b j by (simp del: append.simps join.simps)
qed

lemma replaceMatch_tight:
  assumes "good_match code m" and "tight result"
  shows "tight (replaceMatch code m result)"
proof -
  define original where "original = substring code (int (startPos m)) (int (endPos m) + 1)"
  define formatted where "formatted = formatSingleTypeDefinition original (prefix m)"
  from assms(1) have g: "startPos m < endPos m" "endPos m < length code" "is_word (code ! startPos m)"
    "code ! endPos m = CHR ''}''" "prefix m \<noteq> []" "is_word (hd (prefix m))" "last (prefix m) = CHR ''{''"
    by (auto simp: good_match_def)
  have "nat (int (endPos m) + 1) = endPos m + 1" by simp
  then have o: "original = take (endPos m + 1 - startPos m) (drop (startPos m) code)"
    using g(1,2) by (simp add: original_def substring_def Let_def min_def max_def nat_diff_distrib')
  have one: "original \<noteq> []" using g(1,2) by (simp add: o)
  have ohd: "hd original = code ! startPos m"
    using g(1,2) by (simp add: o hd_drop_conv_nth)
  have len: "length original = endPos m + 1 - startPos m" using g(1,2) by (simp add: o)
  have "last original = original ! (length original - 1)" using one by (rule last_conv_nth)
  also have "\<dots> = drop (startPos m) code ! (endPos m - startPos m)"
    unfolding len unfolding o using g(1,2) by simp
  also have "\<dots> = code ! endPos m" using g(1,2) by (simp add: nth_drop)
  finally have olast: "last original = CHR ''}''" using g(4) by simp
  have "tight original" using one ohd olast g(3) by (simp add: tight_def is_word_not_space brace_not_space)
  then have f: "tight formatted"
    unfolding formatted_def using olast g(5-7) by (intro formatSingleTypeDefinition_tight) (auto simp: is_word_not_space)
  have r: "replaceMatch code m result = take (startPos m) result @ formatted @ drop (endPos m + 1) result"
    by (simp add: replaceMatch_def Let_def original_def formatted_def)
  have "hd (take (startPos m) result @ formatted) = (if take (startPos m) result = [] then hd formatted else hd result)"
    using assms(2) by (cases result; cases "startPos m") (auto simp: tight_def)
  moreover have "last (formatted @ drop (endPos m + 1) result) =
      (if drop (endPos m + 1) result = [] then last formatted else last result)"
    using f by (auto simp: tight_def last_drop')
  ultimately show ?thesis
    unfolding r using f assms(2) by (auto simp: tight_def hd_append last_append split: if_splits)
qed

lemma foldr_replaceMatch_tight:
  "\<forall>m\<in>set ms. good_match code m \<Longrightarrow> tight s \<Longrightarrow> tight (foldr (replaceMatch code) ms s)"
  by (induction ms) (auto intro: replaceMatch_tight)

lemma formatTypeDefinitionsWithNestedBraces_tight:
  "tight code \<Longrightarrow> tight (formatTypeDefinitionsWithNestedBraces code)"
  unfolding formatTypeDefinitionsWithNestedBraces_def
  by (rule foldr_replaceMatch_tight) (auto intro: collectMatches_good[where i = 0])

lemma collapseNewlines_last:
  "s \<noteq> [] \<Longrightarrow> last s \<noteq> NL \<Longrightarrow>
   collapseNewlines n s \<noteq> [] \<and> last (collapseNewlines n s) = last s"
proof (induction s arbitrary: n)
  case Nil
  then show ?case by simp
next
  case (Cons c cs)
  show ?case
  proof (cases "cs = []")
    case True
    with Cons.prems show ?thesis by simp
  next
    case False
    with Cons.prems have "last cs \<noteq> NL" by simp
    from Cons.IH[OF False this] False show ?thesis by simp
  qed
qed

lemma replicate_no4: "\<not> includes_str (replicate (min n 3) NL) [NL, NL, NL, NL]"
proof
  assume "includes_str (replicate (min n 3) NL) [NL, NL, NL, NL]"
  from includes_str_length[OF this] show False by simp
qed

lemma collapseNewlines_no4: "\<not> includes_str (collapseNewlines n s) [NL, NL, NL, NL]"
proof (induction s arbitrary: n)
  case Nil
  show ?case using replicate_no4[of n] by (simp del: includes_str.simps)
next
  case (Cons c cs)
  show ?case
  proof (cases "c = NL")
    case True
    with Cons show ?thesis by simp
  next
    case False
    have "includes_str (replicate (min n 3) NL @ c # collapseNewlines 0 cs) [NL, NL, NL, NL] =
      (includes_str (replicate (min n 3) NL) [NL, NL, NL, NL] \<or>
       includes_str (collapseNewlines 0 cs) [NL, NL, NL, NL])"
      using False by (intro includes_str_split) auto
    then show ?thesis using False Cons.IH[of 0] replicate_no4[of n]
      by (simp del: includes_str.simps)
  qed
qed

lemma NL_space: "is_space NL"
  by (simp add: is_space_def)

lemma cleanupSpacing_tight:
  assumes "tight s"
  shows "cleanupSpacing s = collapseNewlines 0 s" and "tight (cleanupSpacing s)"
proof -
  from assms have "s \<noteq> []" "hd s \<noteq> NL" "last s \<noteq> NL"
    using NL_space by (auto simp: tight_def)
  then obtain c cs where s: "s = c # cs" "c \<noteq> NL" "last s \<noteq> NL"
    by (cases s) auto
  have l: "collapseNewlines 0 s \<noteq> []" "last (collapseNewlines 0 s) = last s"
    using collapseNewlines_last[of s 0] s by auto
  have h: "collapseNewlines 0 s = c # collapseNewlines 0 cs" using s by simp
  have d: "dropLeadingNewlines (collapseNewlines 0 s) = collapseNewlines 0 s"
    unfolding h dropLeadingNewlines_def using s(2) by simp
  show e: "cleanupSpacing s = collapseNewlines 0 s"
    unfolding cleanupSpacing_def d collapseTrailingNewlines_def using l s(3) by simp
  have "hd (collapseNewlines 0 s) = hd s" using h s(1) by simp
  with l assms show "tight (cleanupSpacing s)"
    unfolding e by (simp add: tight_def)
qed

lemma join_splitOn: "join [c] (splitOn c s) = s"
proof (induction s)
  case Nil
  show ?case by simp
next
  case (Cons x xs)
  obtain l ls where sp: "splitOn c xs = l # ls" using splitOn_nonempty[of c xs] by (cases "splitOn c xs") auto
  show ?case
  proof (cases "x = c")
    case True
    with Cons sp show ?thesis by simp
  next
    case False
    with Cons sp show ?thesis by (cases ls) simp_all
  qed
qed

lemma join_two: "xs \<noteq> [] \<Longrightarrow> join sep (x # xs) = x @ sep @ join sep xs"
  by (cases xs) simp_all

lemma join_append:
  "A \<noteq> [] \<Longrightarrow> B \<noteq> [] \<Longrightarrow> join sep (A @ B) = join sep A @ sep @ join sep B"
proof (induction A)
  case Nil
  then show ?case by simp
next
  case (Cons a A)
  show ?case
  proof (cases "A = []")
    case True
    with Cons.prems show ?thesis by (simp add: join_two)
  next
    case False
    with Cons show ?thesis by (simp add: join_two)
  qed
qed

lemma three_empty_split: "three_empty ls \<Longrightarrow> \<exists>A B. ls = A @ [[], [], []] @ B"
proof (induction ls rule: three_empty.induct)
  case (1 a b c ls)
  show ?case
  proof (cases "a = [] \<and> b = [] \<and> c = []")
    case True
    then have "a # b # c # ls = [] @ [[], [], []] @ ls" by simp
    then show ?thesis by blast
  next
    case False
    with 1 obtain A B where "b # c # ls = A @ [[], [], []] @ B" by auto
    then have "a # b # c # ls = (a # A) @ [[], [], []] @ B" by simp
    then show ?thesis by blast
  qed
qed simp_all

lemma three_empty_lines:
  assumes "three_empty (splitOn NL s)"
  shows "s \<noteq> [] \<and> (hd s = NL \<or> last s = NL \<or> includes_str s [NL, NL, NL, NL])"
proof -
  from three_empty_split[OF assms] obtain A B where ab: "splitOn NL s = A @ [[], [], []] @ B"
    by blast
  have s: "s = join [NL] (A @ [[], [], []] @ B)" using join_splitOn[of NL s] ab by simp
  show ?thesis
  proof (cases "A = []")
    case True
    then have "s = NL # NL # join [NL] ([] # B)" using s by simp
    then show ?thesis by simp
  next
    case False
    have 1: "join [NL] (A @ [[], [], []] @ B) = join [NL] A @ [NL] @ join [NL] ([[], [], []] @ B)"
      using False by (rule join_append) simp
    show ?thesis
    proof (cases "B = []")
      case True
      then have "s = join [NL] A @ [NL, NL, NL]" using s 1 by simp
      then show ?thesis by simp
    next
      case False
      then have "join [NL] ([[], [], []] @ B) = [NL, NL, NL] @ join [NL] B" by (simp add: join_two)
      then have "s = join [NL] A @ [NL, NL, NL, NL] @ join [NL] B" using s 1 by simp
      then have "includes_str s [NL, NL, NL, NL]" unfolding includes_str_iff by blast
      moreover have "s \<noteq> []" using \<open>s = join [NL] A @ [NL, NL, NL, NL] @ join [NL] B\<close> by simp
      ultimately show ?thesis by blast
    qed
  qed
qed

text \<open>
  Claim C8, as stated, fails twice.  The output does not end with a line feed: the
  formatter trims its input and appends nothing.  And only runs of empty lines are
  shortened: lines that hold whitespace pass unchanged, here four of them in a row.
\<close>

theorem formatASN1Code_blank_lines_and_trailing_newline:
  "formatASN1Code DEFAULT_SETTINGS ''Person ::= INTEGER'' = ''Person ::= INTEGER'' \<and>
   last (formatASN1Code DEFAULT_SETTINGS ''Person ::= INTEGER'') \<noteq> NL \<and>
   formatASN1Code DEFAULT_SETTINGS
     (''a'' @ [NL] @ '' '' @ [NL] @ '' '' @ [NL] @ '' '' @ [NL] @ '' '' @ [NL] @ ''b'') =
     ''a'' @ [NL] @ '' '' @ [NL] @ '' '' @ [NL] @ '' '' @ [NL] @ '' '' @ [NL] @ ''b'' \<and>
   map trim (splitOn NL (formatASN1Code DEFAULT_SETTINGS
     (''a'' @ [NL] @ '' '' @ [NL] @ '' '' @ [NL] @ '' '' @ [NL] @ '' '' @ [NL] @ ''b''))) =
     [''a'', [], [], [], [], ''b'']"
  by code_simp

text \<open>
  Claim C8, amended: for every input that is not blank, the output is not empty, never
  has more than two consecutive empty lines (so never more than three line feeds in a
  row; lines that hold whitespace are not counted), begins with a character that is not
  whitespace (so with no blank line) and ends with a character that is not whitespace (so
  with no trailing line feed).
\<close>

theorem formatASN1Code_spacing:
  assumes "trim code \<noteq> []"
  shows "formatASN1Code st code \<noteq> [] \<and>
         \<not> three_empty (splitOn NL (formatASN1Code st code)) \<and>
         \<not> includes_str (formatASN1Code st code) [NL, NL, NL, NL] \<and>
         \<not> is_space (hd (formatASN1Code st code)) \<and>
         \<not> is_space (last (formatASN1Code st code))"
proof -
  define r where "r = formatTypeDefinitionsWithNestedBraces (separateDefinitions (trim code))"
  have "tight (trim code)" using assms trim_ends[of code] by (simp add: tight_def)
  then have t: "tight r"
    unfolding r_def by (intro formatTypeDefinitionsWithNestedBraces_tight separateDefinitions_tight)
  have f: "formatASN1Code st code = cleanupSpacing r"
    using assms by (simp add: formatASN1Code_def simpleFormatASN1_def r_def)
  from cleanupSpacing_tight[OF t] collapseNewlines_no4[of 0 r]
  have *: "cleanupSpacing r \<noteq> []" "\<not> includes_str (cleanupSpacing r) [NL, NL, NL, NL]"
    "\<not> is_space (hd (cleanupSpacing r))" "\<not> is_space (last (cleanupSpacing r))"
    by (simp_all add: tight_def del: includes_str.simps)
  have "\<not> three_empty (splitOn NL (cleanupSpacing r))"
  proof
    assume "three_empty (splitOn NL (cleanupSpacing r))"
    from three_empty_lines[OF this] * NL_space show False by auto
  qed
  with * show ?thesis unfolding f by blast
qed

theorem formatASN1Code_spacing_witness:
  "\<not> three_empty (splitOn NL
      (formatASN1Code DEFAULT_SETTINGS
         ([NL] @ ''A ::= SET {a B}'' @ [NL, NL, NL, NL, NL] @ ''C ::= INTEGER'' @ [NL, NL]))) \<and>
   \<not> includes_str
      (formatASN1Code DEFAULT_SETTINGS
         ([NL] @ ''A ::= SET {a B}'' @ [NL, NL, NL, NL, NL] @ ''C ::= INTEGER'' @ [NL, NL]))
      [NL, NL, NL, NL] \<and>
   \<not> is_space (hd (formatASN1Code DEFAULT_SETTINGS
         ([NL] @ ''A ::= SET {a B}'' @ [NL, NL, NL, NL, NL] @ ''C ::= INTEGER'' @ [NL, NL]))) \<and>
   \<not> is_space (last (formatASN1Code DEFAULT_SETTINGS
         ([NL] @ ''A ::= SET {a B}'' @ [NL, NL, NL, NL, NL] @ ''C ::= INTEGER'' @ [NL, NL])))"
proof -
  have a: "trim ([NL] @ ''A ::= SET {a B}'' @ [NL, NL, NL, NL, NL] @ ''C ::= INTEGER'' @ [NL, NL]) \<noteq> []"
    by code_simp
  from formatASN1Code_spacing [OF a, of DEFAULT_SETTINGS] show ?thesis
    by blast
qed

section \<open>Totality\<close>

lemma trim_eq_Nil: "trim s = [] \<longleftrightarrow> (\<forall>c\<in>set s. is_space c)"
proof
  assume "trim s = []"
  then have "\<forall>c\<in>set (trimEnd s). is_space c"
    by (simp add: trim_def trimStart_def dropWhile_eq_Nil_conv)
  then have "trimEnd s = []"
    using trimEnd_id[of "trimEnd s"] trim_ends(2)[of s] 
    by (metis (no_types) dropWhile_eq_Nil_conv hd_dropWhile last_in_set last_rev rev_is_Nil_conv set_rev trimEnd_def)
  then show "\<forall>c\<in>set s. is_space c" by (simp add: trimEnd_eq_Nil list_all_iff)
next
  assume "\<forall>c\<in>set s. is_space c"
  then have "trimEnd s = []" by (simp add: trimEnd_eq_Nil list_all_iff)
  then show "trim s = []" by (simp add: trim_def trimStart_def)
qed

lemma search_typedef_None: "search_typedef i s = None \<Longrightarrow> collectMatches code i s = []"
  by (induction s arbitrary: i) (auto split: option.splits)

lemma search_typedef_Some:
  "search_typedef i s = Some (p, n) \<Longrightarrow>
   i \<le> p \<and> p - i < length s \<and> match_typedef_start (drop (p - i) s) = Some n \<and>
   collectMatches code i s = collectMatches code p (drop (p - i) s)"
proof (induction s arbitrary: i)
  case Nil
  then show ?case by simp
next
  case (Cons c cs)
  show ?case
  proof (cases "match_typedef_start (c # cs)")
    case (Some m)
    with Cons.prems have "p = i" "n = m" by simp_all
    with Some show ?thesis by simp
  next
    case None
    with Cons.prems have s: "search_typedef (i + 1) cs = Some (p, n)" by simp
    from Cons.IH[OF s] have ih: "i + 1 \<le> p" "p - (i + 1) < length cs"
      "match_typedef_start (drop (p - (i + 1)) cs) = Some n"
      "collectMatches code (i + 1) cs = collectMatches code p (drop (p - (i + 1)) cs)"
      by simp_all
    from ih(1) have "p - i = Suc (p - (i + 1))" by simp
    then have d: "drop (p - i) (c # cs) = drop (p - (i + 1)) cs" by simp
    have "collectMatches code i (c # cs) = collectMatches code (i + 1) cs"
      using None by simp
    with ih d show ?thesis by (auto simp del: collectMatches.simps)
  qed
qed

text \<open>The first loop ends, with the matches that \<^const>\<open>collectMatches\<close> lists.\<close>

lemma exec_loop_collects:
  "i \<le> length code \<Longrightarrow>
   exec_loop code i acc = Some (acc @ collectMatches code i (drop i code))"
proof (induction "length code - i" arbitrary: i acc rule: less_induct)
  case less
  have r: "regex_exec code i = search_typedef i (drop i code)"
    using less.prems by (simp add: regex_exec_def)
  show ?case
  proof (cases "search_typedef i (drop i code)")
    case None
    then have "exec_loop code i acc = Some acc"
      by (subst exec_loop.simps) (simp add: r)
    with search_typedef_None[OF None, of code] show ?thesis by simp
  next
    case (Some m)
    obtain p n where m: "m = (p, n)" by (cases m)
    note st = search_typedef_Some[OF Some[unfolded m], of code]
    from st have ip: "i \<le> p" by (rule conjunct1)
    have dp: "drop (p - i) (drop i code) = drop p code" using ip by simp
    from st have s: "i \<le> p" "p - i < length (drop i code)"
      "match_typedef_start (drop (p - i) (drop i code)) = Some n"
      "collectMatches code i (drop i code) = collectMatches code p (drop (p - i) (drop i code))"
      by blast+
    have plt: "p < length code" using s(1,2) by simp
    from match_typedef_start_Some(1,2)[OF s(3)[unfolded dp]]
    have n: "0 < n" "p + n \<le> length code" using plt by simp_all
    obtain c cs where cc: "drop p code = c # cs" using plt by (cases "drop p code") auto
    define new where "new =
      (if findMatchingBrace code (p + n - 1) \<noteq> - 1
       then [\<lparr>startPos = p, endPos = nat (findMatchingBrace code (p + n - 1)),
               prefix = take n (drop p code)\<rparr>]
       else [])"
    have step: "exec_loop code i acc = exec_loop code (p + n) (acc @ new)"
      by (subst exec_loop.simps) (simp add: r Some m new_def)
    have "length code - (p + n) < length code - i" using n s(1) plt by simp
    from less.hyps[OF this n(2), of "acc @ new"]
    have ih: "exec_loop code (p + n) (acc @ new) =
        Some ((acc @ new) @ collectMatches code (p + n) (drop (p + n) code))" .
    have "collectMatches code p (c # cs) = new @ collectMatches code (p + n) (drop n (c # cs))"
      using s(3)[unfolded dp cc] by (simp add: new_def Let_def cc)
    moreover have "drop n (c # cs) = drop (p + n) code"
      unfolding cc[symmetric] by (simp add: add.commute)
    ultimately have "collectMatches code i (drop i code) =
        new @ collectMatches code (p + n) (drop (p + n) code)"
      using s(4) by (simp only: dp cc)
    with step ih show ?thesis by simp
  qed
qed

text \<open>The second loop reads the list within its bounds only.\<close>

lemma replace_loop_foldr:
  "k \<le> length ms \<Longrightarrow>
   replace_loop code ms k result = Inr (foldr (replaceMatch code) (take k ms) result)"
proof (induction k arbitrary: result)
  case 0
  show ?case by simp
next
  case (Suc k)
  then have k: "k < length ms" by simp
  have "take (Suc k) ms = take k ms @ [ms ! k]" using k by (rule take_Suc_conv_app_nth)
  with Suc.IH[of "replaceMatch code (ms ! k) result"] k show ?case by simp
qed

lemma run_formatTypeDefinitionsWithNestedBraces_returns:
  "run_formatTypeDefinitionsWithNestedBraces code =
     Some (Inr (formatTypeDefinitionsWithNestedBraces code))"
  using exec_loop_collects[of 0 code "[]"]
  by (simp add: run_formatTypeDefinitionsWithNestedBraces_def replace_loop_foldr
      formatTypeDefinitionsWithNestedBraces_def)

text \<open>
  Claim C1: for every input, also with unterminated braces or strings, the run of
  \<^verbatim>\<open>formatASN1Code\<close> ends and raises nothing: the search loop ends because every
  match moves its start index forward, and the replacement loop reads only elements the
  list has.  What the run returns is the result given by \<^const>\<open>formatASN1Code\<close>, which
  is the structured result, never the one of the fallback, and the empty string for an
  empty or whitespace-only input.
\<close>

theorem formatASN1Code_total:
  "run_formatASN1Code st code = Some (Inr (formatASN1Code st code)) \<and>
   (\<exists>result. run_simpleFormatASN1 code = Some (Inr result)) \<and>
   ((\<forall>c\<in>set code. is_space c) \<longrightarrow> run_formatASN1Code st code = Some (Inr []))"
proof -
  have s: "run_simpleFormatASN1 code =
      Some (Inr (cleanupSpacing (formatTypeDefinitionsWithNestedBraces (separateDefinitions (trim code)))))"
    by (simp add: run_simpleFormatASN1_def run_formatTypeDefinitionsWithNestedBraces_returns)
  then have "run_formatASN1Code st code = Some (Inr (formatASN1Code st code))"
    by (simp add: run_formatASN1Code_def formatASN1Code_def simpleFormatASN1_def)
  moreover have "(\<forall>c\<in>set code. is_space c) \<longrightarrow> run_formatASN1Code st code = Some (Inr [])"
    by (simp add: run_formatASN1Code_def trim_eq_Nil)
  ultimately show ?thesis using s by blast
qed

theorem formatASN1Code_total_witness:
  "run_formatASN1Code DEFAULT_SETTINGS (''   '' @ [NL] @ ''  '' @ [NL] @ ''  '') = Some (Inr []) \<and>
   run_formatASN1Code DEFAULT_SETTINGS (''P ::= SET {'' @ [NL] @ ''a '' @ [DQUOTE] @ ''x'') =
     Some (Inr (''P ::= SET {'' @ [NL] @ ''a '' @ [DQUOTE] @ ''x''))"
proof -
  have ws: "\<forall>c\<in>set (''   '' @ [NL] @ ''  '' @ [NL] @ ''  ''). is_space c"
    by (simp add: is_space_def)
  have r: "formatASN1Code DEFAULT_SETTINGS (''P ::= SET {'' @ [NL] @ ''a '' @ [DQUOTE] @ ''x'') =
      ''P ::= SET {'' @ [NL] @ ''a '' @ [DQUOTE] @ ''x''"
    by code_simp
  from formatASN1Code_total [of DEFAULT_SETTINGS "''   '' @ [NL] @ ''  '' @ [NL] @ ''  ''"] ws
  have "run_formatASN1Code DEFAULT_SETTINGS (''   '' @ [NL] @ ''  '' @ [NL] @ ''  '') = Some (Inr [])"
    by blast
  moreover
  from formatASN1Code_total [of DEFAULT_SETTINGS "''P ::= SET {'' @ [NL] @ ''a '' @ [DQUOTE] @ ''x''"] r
  have "run_formatASN1Code DEFAULT_SETTINGS (''P ::= SET {'' @ [NL] @ ''a '' @ [DQUOTE] @ ''x'') =
     Some (Inr (''P ::= SET {'' @ [NL] @ ''a '' @ [DQUOTE] @ ''x''))"
    by simp
  ultimately show ?thesis by blast
qed

section \<open>Idempotence on structured documents\<close>

lemma takeWhile_all: "list_all P xs \<Longrightarrow> (ys = [] \<or> \<not> P (hd ys)) \<Longrightarrow> takeWhile P (xs @ ys) = xs"
  by (cases ys) (auto simp: list_all_iff takeWhile_append2 takeWhile_eq_all_conv)

lemma match_assign_head:
  assumes "name \<noteq> []" "list_all is_word name" "list_all is_space s1"
  shows "match_assign (name @ s1 @ ''::='' @ rest) = Some (length name + length s1 + 3)"
proof -
  have nw: "\<not> is_word (CHR '':'')" by (simp add: is_word_def)
  have ns: "\<not> is_space (CHR '':'')" by (simp add: is_space_def)
  have "s1 @ ''::='' @ rest = [] \<or> \<not> is_word (hd (s1 @ ''::='' @ rest))"
    using assms(3) nw by (cases s1) (auto dest: is_word_not_space)
  with assms(2) have w: "takeWhile is_word (name @ s1 @ ''::='' @ rest) = name"
    by (rule takeWhile_all)
  have sp: "takeWhile is_space (s1 @ ''::='' @ rest) = s1"
    using assms(3) ns by (intro takeWhile_all) auto
  show ?thesis
    unfolding match_assign_def Let_def w using assms(1) sp by simp
qed

















subsection \<open>Whitespace does not matter to the bracket scan\<close>


















subsection \<open>Normalizing a well-formed field\<close>






subsection \<open>The splitter ignores surrounding whitespace\<close>








subsection \<open>Occurrences of the operator and whitespace\<close>












subsection \<open>Rendered definitions\<close>




subsection \<open>The assignment operator at the head of a text\<close>







subsection \<open>Separating the definitions of a document\<close>




lemma render_def_hd:
  assumes "wf_def D"
  shows "render_def D @ R \<noteq> []" and "is_word (hd (render_def D @ R))"
    and "\<exists>a. match_assign (render_def D @ R) = Some a \<and> CHR ''}'' \<notin> set (take a (render_def D @ R))"
proof -
  from assms have ok: "d_name D \<noteq> []" "list_all is_word (d_name D)" "list_all is_space (d_sp1 D)"
    by (auto simp: wf_def_def header_ok_def)
  define rest where "rest = d_sp2 D @ d_kw D @ d_sp3 D @ ''{'' @ join '','' (d_fields D) @ ''}'' @ R"
  have r: "render_def D @ R = d_name D @ d_sp1 D @ ''::='' @ rest"
    by (simp add: render_def_def header_def rest_def)
  show "render_def D @ R \<noteq> []" using ok(1) by (simp add: r)
  show "is_word (hd (render_def D @ R))" using ok(1,2) by (cases "d_name D") (auto simp: r)
  have ma: "match_assign (render_def D @ R) = Some (length (d_name D) + length (d_sp1 D) + 3)"
    unfolding r using ok by (rule match_assign_head)
  have tk: "take (length (d_name D) + length (d_sp1 D) + 3) (render_def D @ R) = d_name D @ d_sp1 D @ ''::=''"
    unfolding r by simp
  have ns: "CHR ''}'' \<notin> set (d_name D @ d_sp1 D @ ''::='')"
  proof -
    have "\<not> is_word (CHR ''}'')" by (simp add: is_word_def)
    with ok(2,3) brace_not_space(1) show ?thesis by (auto simp: list_all_iff)
  qed
  have "CHR ''}'' \<notin> set (take (length (d_name D) + length (d_sp1 D) + 3) (render_def D @ R))"
    unfolding tk by (rule ns)
  with ma show "\<exists>a. match_assign (render_def D @ R) = Some a \<and> CHR ''}'' \<notin> set (take a (render_def D @ R))"
    by blast
qed



lemma render_block_ne: "block_ok B \<Longrightarrow> render_block B @ R \<noteq> []"
  using render_def_hd(1) by (cases B) simp_all

lemma render_items_Nil: "items_ok xs \<Longrightarrow> render_items xs = [] \<longleftrightarrow> xs = []"
proof (cases xs)
  case Nil
  then show ?thesis by simp
next
  case (Cons x ys)
  assume ok: "items_ok xs"
  obtain B g where x: "x = (B, g)" by (cases x)
  from ok Cons x have "block_ok B" by simp
  from render_block_ne[OF this, of "g @ render_items ys"] show ?thesis by (simp add: Cons x)
qed






subsection \<open>No type definition starts in the text between two definitions\<close>







lemma brace_not_word: "\<not> is_word (CHR ''{'')"
  by (simp add: is_word_def)


lemma dropWhile_space_word: "R = [] \<or> is_word (hd R) \<Longrightarrow> dropWhile is_space R = R"
  using is_word_not_space by (cases R) auto

lemma take1_word: "R = [] \<or> is_word (hd R) \<Longrightarrow> take 1 R \<noteq> ''{''"
  using brace_not_word by (cases R) auto






subsection \<open>The matches recorded on a document\<close>



















subsection \<open>Runs of line feeds\<close>


lemma cn_before:
  "c \<noteq> NL \<Longrightarrow> collapseNewlines n (a @ c # b) = collapseNewlines n a @ c # collapseNewlines 0 b"
  by (induction a arbitrary: n) simp_all

lemma cn_after:
  "a \<noteq> [] \<Longrightarrow> last a \<noteq> NL \<Longrightarrow>
   collapseNewlines n (a @ b) = collapseNewlines n a @ collapseNewlines 0 b"
proof -
  assume a: "a \<noteq> []" "last a \<noteq> NL"
  then obtain a' c where ac: "a = a' @ [c]" "c \<noteq> NL" by (metis append_butlast_last_id)
  have "collapseNewlines n (a' @ c # b) = collapseNewlines n a' @ c # collapseNewlines 0 b"
    using ac(2) by (rule cn_before)
  moreover have "collapseNewlines n (a' @ c # []) = collapseNewlines n a' @ c # collapseNewlines 0 []"
    using ac(2) by (rule cn_before)
  ultimately show ?thesis by (simp add: ac(1))
qed

lemma cn_noNL: "NL \<notin> set a \<Longrightarrow> collapseNewlines 0 (a @ b) = a @ collapseNewlines 0 b"
  by (induction a) auto

lemma cn_id: "NL \<notin> set a \<Longrightarrow> collapseNewlines 0 a = a"
  using cn_noNL[of a "[]"] by simp

















subsection \<open>The assignment operator and runs of line feeds\<close>




subsection \<open>Type definition starts and runs of line feeds\<close>






subsection \<open>Canonical fields\<close>









subsection \<open>Closure of the well-formed documents\<close>










subsection \<open>The canonical form is a fixed point\<close>











subsection \<open>Blank-line cleanup of a formatted document\<close>









subsection \<open>One pass over a well-formed document\<close>






end
